theory Spec2Isabelle
  imports Complex_Main "HOL-Library.Char_ord" "HOL-Library.List_Lexorder" "HOL-Library.Log_Nat"
begin

section \<open>Python strings\<close>

text \<open>
  A Python \<open>str\<close> is modelled as a \<open>string\<close> whose characters are the code points
  below 256, one \<open>char\<close> per code point. The order on \<open>char\<close> is the order of the code
  points and the order on lists is lexicographic, so \<open>(<)\<close> on \<open>string\<close> is Python's
  comparison of \<open>str\<close> values and \<open>sort\<close> is \<open>sorted\<close>.
\<close>

text \<open>
  \<open>str.isspace\<close> on one character: the code points 9 to 13, 28 to 32, 133 and 160
  are the white space below 256.
\<close>

definition isspace :: "char \<Rightarrow> bool" where
  "isspace c =
     (let n = (of_char c :: nat)
      in (9 \<le> n \<and> n \<le> 13) \<or> (28 \<le> n \<and> n \<le> 32) \<or> n = 133 \<or> n = 160)"

text \<open>\<open>s.strip()\<close>: white space is removed at both ends.\<close>

definition strip :: "string \<Rightarrow> string" where
  "strip s = rev (dropWhile isspace (rev (dropWhile isspace s)))"

text \<open>
  \<open>str.lower\<close> on one character: A to Z, and the upper-case letters of the range
  192 to 222 (215, the multiplication sign, is not a letter), move up by 32.
\<close>

definition lower_char :: "char \<Rightarrow> char" where
  "lower_char c =
     (let n = (of_char c :: nat)
      in if (65 \<le> n \<and> n \<le> 90) \<or> (192 \<le> n \<and> n \<le> 222 \<and> n \<noteq> 215)
         then char_of (n + 32) else c)"

definition lower :: "string \<Rightarrow> string" where
  "lower s = map lower_char s"

text \<open>
  \<open>s.split(sep)\<close> for a separator of one character. The result is never empty:
  the empty string splits into one empty field.
\<close>

fun split :: "char \<Rightarrow> string \<Rightarrow> string list" where
  "split sep [] = [[]]"
| "split sep (c # cs) =
     (if c = sep then [] # split sep cs
      else (case split sep cs of
              [] \<Rightarrow> [[c]]
            | w # ws \<Rightarrow> (c # w) # ws))"

text \<open>\<open>s.startswith(p)\<close>.\<close>

definition startswith :: "string \<Rightarrow> string \<Rightarrow> bool" where
  "startswith s p = (take (length p) s = p)"

section \<open>Errors\<close>

text \<open>The exceptions that the modelled code can raise.\<close>

datatype py_error =
    IndexError
  | KeyError string
  | AttributeError
  | FileNotFoundError string
  | OSError string
  | TemplateNotFound string

section \<open>The compatibility matrix\<close>

text \<open>
  \<open>matrix\<close> is a dict of dicts: the row name is mapped to the row, and the row maps
  a column name to the normalised cell.
\<close>

type_synonym matrix = "string \<rightharpoonup> (string \<rightharpoonup> string)"

text \<open>
  The inner loop of \<open>parse_csv\<close>, \<open>for j, cell in enumerate(cells[1:])\<close>: the cell
  number \<open>j\<close> is stored under \<open>extensions[j]\<close>, which raises \<open>IndexError\<close> when the
  header has no column \<open>j\<close>.
\<close>

fun parse_cells ::
  "string list \<Rightarrow> nat \<Rightarrow> string list \<Rightarrow> (string \<rightharpoonup> string) \<Rightarrow> py_error + (string \<rightharpoonup> string)"
where
  "parse_cells extensions j [] row = Inr row"
| "parse_cells extensions j (cell # cells) row =
     (if j < length extensions
      then parse_cells extensions (Suc j) cells (row(extensions ! j \<mapsto> lower (strip cell)))
      else Inl IndexError)"

text \<open>
  The outer loop, \<open>for i, line in enumerate(lines[1:], 1)\<close>. A row name that is met
  again keeps the cells it has and the new cells overwrite them.
\<close>

fun parse_lines :: "string list \<Rightarrow> string list \<Rightarrow> matrix \<Rightarrow> py_error + matrix" where
  "parse_lines extensions [] matrix = Inr matrix"
| "parse_lines extensions (line # lines) matrix =
     (case split CHR '','' line of
        [] \<Rightarrow> Inl IndexError
      | c0 # cells \<Rightarrow>
          (let ext_name = strip c0;
               row0 = (case matrix ext_name of None \<Rightarrow> Map.empty | Some r \<Rightarrow> r)
           in case parse_cells extensions 0 cells row0 of
                Inl e \<Rightarrow> Inl e
              | Inr row \<Rightarrow> parse_lines extensions lines (matrix(ext_name \<mapsto> row))))"

definition parse_csv :: "string \<Rightarrow> py_error + (string list \<times> matrix)" where
  "parse_csv csv_content =
     (case split CHR 0x0A (strip csv_content) of
        [] \<Rightarrow> Inl IndexError
      | l0 # lines \<Rightarrow>
          (let header = split CHR '','' l0;
               extensions = map strip (drop 1 header)
           in case parse_lines extensions lines Map.empty of
                Inl e \<Rightarrow> Inl e
              | Inr matrix \<Rightarrow> Inr (extensions, matrix)))"

text \<open>The name of a data line, \<open>cells[0].strip()\<close>.\<close>

definition row_name :: "string \<Rightarrow> string" where
  "row_name line = strip (hd (split CHR '','' line))"

section \<open>Floating-point numbers\<close>

text \<open>
  A Python \<open>float\<close> is a number of the IEEE 754 binary64 format, and the division of two
  integers and the product of two floats are the exact results rounded to the nearest
  float, ties to the even significand. A float is represented by the rational number it
  denotes. \<open>pow2 e\<close> is the power of two of exponent \<open>e\<close>; \<open>exponent x\<close> is the \<open>e\<close> with
  \<open>pow2 e \<le> \<bar>x\<bar> < pow2 (e + 1)\<close>, found from the bit lengths of the numerator and of the
  denominator; \<open>double x\<close> is the float nearest to \<open>x\<close>: a multiple of the unit in the
  last place, which is \<open>pow2 (e - 52)\<close> for a normal number and \<open>pow2 (- 1074)\<close> below
  \<open>pow2 (- 1022)\<close>. Overflow to infinity is not represented: the numbers rounded here
  are at most 100.
\<close>

definition pow2 :: "int \<Rightarrow> rat" where
  "pow2 e = (if 0 \<le> e then 2 ^ nat e else 1 / 2 ^ nat (- e))"

definition exponent :: "rat \<Rightarrow> int" where
  "exponent x =
     (case quotient_of x of (p, q) \<Rightarrow>
        (let a = bitlen \<bar>p\<bar>; b = bitlen q
         in if pow2 (a - b) \<le> \<bar>x\<bar> then a - b else a - b - 1))"

definition round_half_even :: "rat \<Rightarrow> int" where
  "round_half_even r =
     (let n = \<lfloor>r\<rfloor>; d = r - of_int n
      in if d < 1 / 2 then n else if 1 / 2 < d then n + 1 else if even n then n else n + 1)"

definition double :: "rat \<Rightarrow> rat" where
  "double x =
     (if x = 0 then 0
      else (let ulp = pow2 (max (exponent x) (- 1022) - 52)
            in of_int (round_half_even (x / ulp)) * ulp))"

section \<open>The compatibility aggregator\<close>

text \<open>
  The three local variables of \<open>calculate_failure_rate_and_failed_extensions\<close>.
\<close>

record counters =
  total_tests :: nat
  failures :: nat
  failed_extensions :: "string set"

text \<open>One iteration of the row loop, over the row of the extension.\<close>

definition check_row :: "string \<Rightarrow> (string \<rightharpoonup> string) \<Rightarrow> string \<Rightarrow> counters \<Rightarrow> counters" where
  "check_row extension row other_ext st =
     (if other_ext \<noteq> extension \<and> row other_ext \<noteq> None
      then (if row other_ext = Some ''no''
            then st\<lparr>total_tests := total_tests st + 1,
                    failures := failures st + 1,
                    failed_extensions := insert other_ext (failed_extensions st)\<rparr>
            else st\<lparr>total_tests := total_tests st + 1\<rparr>)
      else st)"

text \<open>One iteration of the column loop.\<close>

definition check_column :: "string \<Rightarrow> matrix \<Rightarrow> string \<Rightarrow> counters \<Rightarrow> counters" where
  "check_column extension matrix other_ext st =
     (if other_ext \<noteq> extension \<and> matrix other_ext \<noteq> None
      then (case matrix other_ext of
              None \<Rightarrow> st
            | Some row \<Rightarrow>
                (if row extension \<noteq> None
                 then (if row extension = Some ''no''
                       then st\<lparr>total_tests := total_tests st + 1,
                               failures := failures st + 1,
                               failed_extensions := insert other_ext (failed_extensions st)\<rparr>
                       else st\<lparr>total_tests := total_tests st + 1\<rparr>)
                 else st))
      else st)"

text \<open>
  Both passes. The rate is \<open>failures / total_tests * 100\<close> in floating point: the
  quotient of the two integers is rounded to a float, and so is its product with 100.
  When there is no test the rate is the integer \<open>0\<close>.
  \<open>sorted(list(failed_extensions))\<close> is the sorted list of the set.
\<close>

definition run_checks :: "string \<Rightarrow> string list \<Rightarrow> matrix \<Rightarrow> counters" where
  "run_checks extension extensions matrix =
     (let st0 = \<lparr>total_tests = 0, failures = 0, failed_extensions = {}\<rparr>;
          st1 = (case matrix extension of
                   None \<Rightarrow> st0
                 | Some row \<Rightarrow> fold (check_row extension row) extensions st0)
      in fold (check_column extension matrix) extensions st1)"

definition calculate_failure_rate_and_failed_extensions ::
  "string \<Rightarrow> string list \<Rightarrow> matrix \<Rightarrow> rat \<times> string list"
where
  "calculate_failure_rate_and_failed_extensions extension extensions matrix =
     (let st = run_checks extension extensions matrix;
          failure_rate = (if total_tests st > 0
                          then double (double (of_nat (failures st) / of_nat (total_tests st)) * 100)
                          else 0)
      in (failure_rate, sorted_list_of_set (failed_extensions st)))"

text \<open>
  \<open>cell matrix a b\<close> is the recorded cell \<open>(a, b)\<close>: \<open>matrix[a][b]\<close> when \<open>a\<close> is a
  key of the matrix and \<open>b\<close> a key of its row, and \<open>None\<close> when the cell is not recorded.
\<close>

definition cell :: "matrix \<Rightarrow> string \<Rightarrow> string \<Rightarrow> string option" where
  "cell matrix a b = (case matrix a of None \<Rightarrow> None | Some row \<Rightarrow> row b)"

text \<open>The matrix of the scenario over A, B and C.\<close>

definition matrix_abc :: matrix where
  "matrix_abc =
     [''A'' \<mapsto> [''B'' \<mapsto> ''no'', ''C'' \<mapsto> ''yes''],
      ''B'' \<mapsto> [''A'' \<mapsto> ''yes'', ''C'' \<mapsto> ''no''],
      ''C'' \<mapsto> [''A'' \<mapsto> ''no'', ''B'' \<mapsto> ''yes'']]"

text \<open>
  A matrix with twenty cells that involve \<open>k\<close>: the row of \<open>k\<close> is \<open>no\<close> for each of the
  ten other names, and of the ten cells of its column the one of \<open>a\<close> is \<open>no\<close>. And the
  table of two extensions whose cell \<open>(A, B)\<close> is written \<open>NO\<close> between two spaces.
\<close>

definition ten_names :: "string list" where
  "ten_names = [''a'', ''b'', ''c'', ''d'', ''e'', ''f'', ''g'', ''h'', ''i'', ''j'']"

definition matrix_eleven :: matrix where
  "matrix_eleven =
     (\<lambda>r. if r = ''k'' then Some (map_of (map (\<lambda>x. (x, ''no'')) ten_names))
          else if r \<in> set ten_names then Some [''k'' \<mapsto> (if r = ''a'' then ''no'' else ''yes'')]
          else None)"

definition table_no :: string where
  "table_no = '',A,B'' @ [CHR 0x0A] @ ''A,-, NO '' @ [CHR 0x0A] @ ''B,Yes,-''"

section \<open>Files and console\<close>

text \<open>
  The file system maps a path to what is there: a text file that can be read, something
  that exists but cannot be opened or decoded, or a directory. \<open>stdout\<close> is what
  \<open>print\<close> has written. \<open>aggregator_calls\<close> is ghost state that the source does not
  have: the extension of every call of the aggregator made by \<open>generate_website\<close>, in
  order, so that a call that is not made can be told from one that is.
\<close>

datatype node = Text string | Unreadable | Directory

datatype output_line = Print string | PrintError string py_error

record world =
  fs :: "string \<rightharpoonup> node"
  stdout :: "output_line list"
  aggregator_calls :: "string list"

definition print :: "output_line \<Rightarrow> world \<Rightarrow> world" where
  "print l w = w\<lparr>stdout := stdout w @ [l]\<rparr>"

text \<open>\<open>os.path.exists\<close>.\<close>

definition exists :: "world \<Rightarrow> string \<Rightarrow> bool" where
  "exists w path = (fs w path \<noteq> None)"

text \<open>
  \<open>open(path, 'r', encoding='utf-8')\<close> followed by \<open>read()\<close>: a missing file raises
  \<open>FileNotFoundError\<close>, a directory or a file that cannot be read another \<open>OSError\<close>.
\<close>

definition open_read :: "world \<Rightarrow> string \<Rightarrow> py_error + string" where
  "open_read w path =
     (case fs w path of
        None \<Rightarrow> Inl (FileNotFoundError path)
      | Some (Text s) \<Rightarrow> Inr s
      | Some Unreadable \<Rightarrow> Inl (OSError path)
      | Some Directory \<Rightarrow> Inl (OSError path))"

text \<open>
  \<open>open(path, 'w')\<close> followed by \<open>write\<close>, \<open>mkdir(exist_ok=True)\<close> and
  \<open>shutil.copytree(src, dst, dirs_exist_ok=True)\<close>. The three are taken to succeed:
  the failures of writing to the output tree are not modelled. \<open>copytree\<close> puts under
  \<open>dst\<close> whatever is under \<open>src\<close> and keeps the rest.
\<close>

definition write_file :: "string \<Rightarrow> string \<Rightarrow> world \<Rightarrow> world" where
  "write_file path text w = w\<lparr>fs := (fs w)(path \<mapsto> Text text)\<rparr>"

definition mkdir :: "string \<Rightarrow> world \<Rightarrow> world" where
  "mkdir path w = (if exists w path then w else w\<lparr>fs := (fs w)(path \<mapsto> Directory)\<rparr>)"

definition copytree :: "string \<Rightarrow> string \<Rightarrow> world \<Rightarrow> world" where
  "copytree src dst w =
     w\<lparr>fs := (\<lambda>p. if p = dst then Some Directory
                   else if startswith p (dst @ ''/'')
                   then (case fs w (src @ drop (length dst) p) of
                           None \<Rightarrow> fs w p
                         | Some n \<Rightarrow> Some n)
                   else fs w p)\<rparr>"

text \<open>\<open>os.path.join(path, *bs)\<close> of \<open>posixpath\<close>.\<close>

fun os_path_join :: "string \<Rightarrow> string list \<Rightarrow> string" where
  "os_path_join path [] = path"
| "os_path_join path (b # bs) =
     os_path_join
       (if startswith b ''/'' then b
        else if path = [] \<or> last path = CHR ''/'' then path @ b
        else path @ ''/'' @ b) bs"

text \<open>\<open>str(n)\<close> for a natural number.\<close>

function str_nat :: "nat \<Rightarrow> string" where
  "str_nat n =
     (if n < 10 then [char_of (48 + n)]
      else str_nat (n div 10) @ [char_of (48 + n mod 10)])"
  by pat_completeness auto
termination
  by (relation "measure (\<lambda>n. n)") auto

declare str_nat.simps [simp del]

section \<open>The tabular readers\<close>

text \<open>
  A row of \<open>csv.DictReader\<close> maps a field name to a string, or to Python's \<open>None\<close>
  when the line is shorter than the header. The reader itself belongs to the standard
  library and the templating engine to Jinja2: both are parameters.
\<close>

datatype csv_value = Str string | PyNone

type_synonym csv_row = "string \<rightharpoonup> csv_value"

text \<open>\<open>row[key].strip()\<close> and \<open>row.get(key, dflt).strip()\<close>.\<close>

definition item_strip :: "csv_row \<Rightarrow> string \<Rightarrow> py_error + string" where
  "item_strip row key =
     (case row key of
        None \<Rightarrow> Inl (KeyError key)
      | Some PyNone \<Rightarrow> Inl AttributeError
      | Some (Str s) \<Rightarrow> Inr (strip s))"

definition get_strip :: "csv_row \<Rightarrow> string \<Rightarrow> string \<Rightarrow> py_error + string" where
  "get_strip row key dflt =
     (case row key of
        None \<Rightarrow> Inr (strip dflt)
      | Some PyNone \<Rightarrow> Inl AttributeError
      | Some (Str s) \<Rightarrow> Inr (strip s))"

text \<open>
  The loop of \<open>parse_source_code_csv\<close> and of \<open>parse_descriptions_csv\<close>, which differ
  in the name of the second column. An exception leaves the loop with the dictionary
  filled so far.
\<close>

fun two_column_loop ::
  "string \<Rightarrow> csv_row list \<Rightarrow> (string \<rightharpoonup> string) \<Rightarrow> (string \<rightharpoonup> string) \<times> py_error option"
where
  "two_column_loop column [] d = (d, None)"
| "two_column_loop column (row # rows) d =
     (case item_strip row ''Extension Name'' of
        Inl e \<Rightarrow> (d, Some e)
      | Inr ext_name \<Rightarrow>
          (case item_strip row column of
             Inl e \<Rightarrow> (d, Some e)
           | Inr v \<Rightarrow> two_column_loop column rows (d(ext_name \<mapsto> v))))"

text \<open>
  The \<open>try\<close> block common to the four readers: \<open>FileNotFoundError\<close> prints the
  warning, any other exception prints the error, and the result built so far is returned.
\<close>

definition read_table ::
  "(string \<Rightarrow> csv_row list) \<Rightarrow> string \<Rightarrow> string \<Rightarrow> 'a \<Rightarrow> (csv_row list \<Rightarrow> 'a \<Rightarrow> 'a \<times> py_error option)
     \<Rightarrow> world \<Rightarrow> 'a \<times> world"
where
  "read_table DictReader file_path what init loop w =
     (case open_read w file_path of
        Inl (FileNotFoundError p) \<Rightarrow>
          (init, print (Print (''Warning: '' @ file_path @ '' not found. '' @ what)) w)
      | Inl e \<Rightarrow> (init, print (PrintError file_path e) w)
      | Inr text \<Rightarrow>
          (case loop (DictReader text) init of
             (d, None) \<Rightarrow> (d, w)
           | (d, Some e) \<Rightarrow> (d, print (PrintError file_path e) w)))"

definition parse_source_code_csv ::
  "(string \<Rightarrow> csv_row list) \<Rightarrow> string \<Rightarrow> world \<Rightarrow> (string \<rightharpoonup> string) \<times> world"
where
  "parse_source_code_csv DictReader file_path w =
     read_table DictReader file_path ''Source code links will not be available.''
       Map.empty (two_column_loop ''Source Code'') w"

definition parse_descriptions_csv ::
  "(string \<Rightarrow> csv_row list) \<Rightarrow> string \<Rightarrow> world \<Rightarrow> (string \<rightharpoonup> string) \<times> world"
where
  "parse_descriptions_csv DictReader file_path w =
     read_table DictReader file_path ''Descriptions will not be available.''
       Map.empty (two_column_loop ''Description'') w"

text \<open>
  The chain of \<open>if row.get(column, '').strip().lower() == 'yes'\<close>, one test for each
  column in the order of the source: the columns that say yes.
\<close>

fun flagged :: "csv_row \<Rightarrow> string list \<Rightarrow> py_error + string list" where
  "flagged row [] = Inr []"
| "flagged row (column # columns) =
     (case get_strip row column '''' of
        Inl e \<Rightarrow> Inl e
      | Inr v \<Rightarrow>
          (case flagged row columns of
             Inl e \<Rightarrow> Inl e
           | Inr rest \<Rightarrow> Inr (if lower v = ''yes'' then column # rest else rest)))"

definition extensibility_columns :: "string list" where
  "extensibility_columns =
     [''Functions'', ''Types'', ''Index Access Methods'', ''Storage Managers'',
      ''Client Authentication'', ''Query Processing'', ''Utility Commands'']"

definition component_columns :: "string list" where
  "component_columns =
     [''Memory Allocation'', ''Background Workers'', ''Custom Configuration Variables'']"

text \<open>
  The loop of \<open>parse_infos_csv\<close>. The name is appended to \<open>extensions_list\<close> before
  the flags are read.
\<close>

fun infos_loop ::
  "csv_row list \<Rightarrow> (string \<rightharpoonup> string list) \<times> string list
     \<Rightarrow> ((string \<rightharpoonup> string list) \<times> string list) \<times> py_error option"
where
  "infos_loop [] acc = (acc, None)"
| "infos_loop (row # rows) acc =
     (case acc of (infos, extensions_list) \<Rightarrow>
        (case item_strip row ''Extension Name'' of
           Inl e \<Rightarrow> ((infos, extensions_list), Some e)
         | Inr ext_name \<Rightarrow>
             (case flagged row extensibility_columns of
                Inl e \<Rightarrow> ((infos, extensions_list @ [ext_name]), Some e)
              | Inr extensibility_types \<Rightarrow>
                  infos_loop rows
                    (infos(ext_name \<mapsto>
                       (if extensibility_types \<noteq> [] then extensibility_types else [''None''])),
                     extensions_list @ [ext_name]))))"

definition parse_infos_csv ::
  "(string \<Rightarrow> csv_row list) \<Rightarrow> string \<Rightarrow> world
     \<Rightarrow> ((string \<rightharpoonup> string list) \<times> string list) \<times> world"
where
  "parse_infos_csv DictReader file_path w =
     read_table DictReader file_path ''Extensibility info will not be available.''
       (Map.empty, []) infos_loop w"

text \<open>The loop of \<open>parse_mechanisms_csv\<close>.\<close>

fun mechanisms_loop ::
  "csv_row list \<Rightarrow> (string \<rightharpoonup> string list) \<Rightarrow> (string \<rightharpoonup> string list) \<times> py_error option"
where
  "mechanisms_loop [] mechanisms = (mechanisms, None)"
| "mechanisms_loop (row # rows) mechanisms =
     (case item_strip row ''Extension Name'' of
        Inl e \<Rightarrow> (mechanisms, Some e)
      | Inr ext_name \<Rightarrow>
          (case flagged row component_columns of
             Inl e \<Rightarrow> (mechanisms, Some e)
           | Inr system_components \<Rightarrow>
               (case get_strip row ''Number of Components'' ''0'' of
                  Inl e \<Rightarrow> (mechanisms, Some e)
                | Inr num_components \<Rightarrow>
                    mechanisms_loop rows
                      (mechanisms(ext_name \<mapsto>
                         (if num_components = ''0'' \<or> system_components = []
                          then [''None''] else system_components))))))"

definition parse_mechanisms_csv ::
  "(string \<Rightarrow> csv_row list) \<Rightarrow> string \<Rightarrow> world \<Rightarrow> (string \<rightharpoonup> string list) \<times> world"
where
  "parse_mechanisms_csv DictReader file_path w =
     read_table DictReader file_path ''System components info will not be available.''
       Map.empty mechanisms_loop w"

section \<open>The evidence locator\<close>

record evidence =
  pair :: string
  first_ext :: string
  second_ext :: string
  content :: string

text \<open>
  \<open>terminal_outputs_by_extension\<close> is a dict of lists, kept here in the order in which
  its keys were inserted. \<open>dict_append\<close> is the pair of statements that creates the
  empty list for a new key and appends the entry.
\<close>

type_synonym evidence_dict = "(string \<times> evidence list) list"

definition dict_append :: "string \<Rightarrow> evidence \<Rightarrow> evidence_dict \<Rightarrow> evidence_dict" where
  "dict_append k v d =
     (if k \<in> set (map fst d)
      then map (\<lambda>(k', vs). if k' = k then (k', vs @ [v]) else (k', vs)) d
      else d @ [(k, [v])])"

definition dict_get :: "evidence_dict \<Rightarrow> string \<Rightarrow> evidence list" where
  "dict_get d k = (case map_of d k of None \<Rightarrow> [] | Some vs \<Rightarrow> vs)"

text \<open>The body of the inner loop, for one direction of one failed extension.\<close>

definition probe ::
  "string \<Rightarrow> string \<Rightarrow> string \<Rightarrow> evidence_dict \<times> world \<Rightarrow> evidence_dict \<times> world"
where
  "probe extension failed_ext direction st =
     (case st of (d, w) \<Rightarrow>
        (let terminal_path = os_path_join ''total_compat_output'' [direction, ''terminal.txt'']
         in if exists w terminal_path
            then (case open_read w terminal_path of
                    Inl e \<Rightarrow> (d, print (PrintError terminal_path e) w)
                  | Inr text \<Rightarrow>
                      (if startswith direction (extension @ ''_'')
                       then (dict_append failed_ext
                               \<lparr>pair = direction, first_ext = extension,
                                second_ext = failed_ext, content = text\<rparr> d, w)
                       else (dict_append failed_ext
                               \<lparr>pair = direction, first_ext = failed_ext,
                                second_ext = extension, content = text\<rparr> d, w)))
            else (d, w)))"

text \<open>The outer loop: both directions of every failed extension, in order.\<close>

definition probe_both ::
  "string \<Rightarrow> string \<Rightarrow> evidence_dict \<times> world \<Rightarrow> evidence_dict \<times> world"
where
  "probe_both extension failed_ext st =
     fold (probe extension failed_ext)
       [extension @ ''_'' @ failed_ext, failed_ext @ ''_'' @ extension] st"

definition get_terminal_outputs ::
  "string \<Rightarrow> string list \<Rightarrow> world \<Rightarrow> (string \<times> evidence list) list \<times> world"
where
  "get_terminal_outputs extension failed_exts w =
     (case fold (probe_both extension) failed_exts ([], w) of
        (d, w') \<Rightarrow> (map (\<lambda>ext. (ext, dict_get d ext)) (sort (map fst d)), w'))"

section \<open>The site writer\<close>

text \<open>The entries of \<open>extension_data\<close> and the keyword arguments of the extension page.\<close>

record entry =
  entry_name :: string
  entry_source_code :: string
  entry_description :: string
  entry_failed_extensions :: "string list"
  entry_has_compatibility_data :: bool
  entry_include_descriptions :: bool

record page =
  extension_name :: string
  failure_rate :: rat
  source_code :: string
  description :: string
  page_failed_extensions :: "string list"
  terminal_outputs :: "(string \<times> evidence list) list"
  extensibility_types :: "string list"
  system_components :: "string list"
  has_compatibility_data :: bool
  include_descriptions :: bool

text \<open>What \<open>template.render\<close> is given, for each of the three templates.\<close>

datatype render_context =
    Home
  | Results "entry list" bool
  | Extension page

text \<open>
  \<open>env.get_template(name)\<close> with the loader on \<open>layout\<close>. A template that is there
  is taken to compile and to render.
\<close>

definition get_template :: "world \<Rightarrow> string \<Rightarrow> py_error + string" where
  "get_template w name =
     (case fs w (os_path_join ''layout'' [name]) of
        Some (Text s) \<Rightarrow> Inr s
      | _ \<Rightarrow> Inl (TemplateNotFound name))"

text \<open>
  The test that both loops of \<open>generate_website\<close> make: the aggregator is called for
  an extension of the header of the matrix and for no other.
\<close>

definition compatibility ::
  "string \<Rightarrow> string list \<Rightarrow> matrix \<Rightarrow> world \<Rightarrow> (rat \<times> string list \<times> bool) \<times> world"
where
  "compatibility extension extensions matrix w =
     (if extension \<in> set extensions
      then (case calculate_failure_rate_and_failed_extensions extension extensions matrix of
              (rate, failed) \<Rightarrow>
                ((rate, failed, True),
                 w\<lparr>aggregator_calls := aggregator_calls w @ [extension]\<rparr>))
      else ((0, [], False), w))"

definition description_of :: "(string \<rightharpoonup> string) \<Rightarrow> bool \<Rightarrow> string \<Rightarrow> string" where
  "description_of descriptions incl extension =
     (if incl
      then (case descriptions extension of None \<Rightarrow> ''No description available'' | Some s \<Rightarrow> s)
      else '''')"

definition get_or :: "('k \<rightharpoonup> 'v) \<Rightarrow> 'k \<Rightarrow> 'v \<Rightarrow> 'v" where
  "get_or d k dflt = (case d k of None \<Rightarrow> dflt | Some v \<Rightarrow> v)"

text \<open>The first loop, which fills \<open>extension_data\<close>.\<close>

fun extension_data_loop ::
  "(string \<rightharpoonup> string) \<Rightarrow> (string \<rightharpoonup> string) \<Rightarrow> bool \<Rightarrow> string list \<Rightarrow> matrix
     \<Rightarrow> string list \<Rightarrow> entry list \<Rightarrow> world \<Rightarrow> entry list \<times> world"
where
  "extension_data_loop srcs descs incl extensions matrix [] extension_data w =
     (extension_data, w)"
| "extension_data_loop srcs descs incl extensions matrix (extension # rest) extension_data w =
     (case compatibility extension extensions matrix w of
        ((rate, failed, has_data), w1) \<Rightarrow>
          extension_data_loop srcs descs incl extensions matrix rest
            (extension_data @
               [\<lparr>entry_name = extension,
                 entry_source_code = get_or srcs extension '''',
                 entry_description = description_of descs incl extension,
                 entry_failed_extensions = failed,
                 entry_has_compatibility_data = has_data,
                 entry_include_descriptions = incl\<rparr>]) w1)"

text \<open>The context of the page of one extension, and the second loop, which writes it.\<close>

definition extension_page ::
  "(string \<rightharpoonup> string) \<Rightarrow> (string \<rightharpoonup> string) \<Rightarrow> (string \<rightharpoonup> string list)
     \<Rightarrow> (string \<rightharpoonup> string list) \<Rightarrow> bool \<Rightarrow> string list \<Rightarrow> matrix
     \<Rightarrow> string \<Rightarrow> world \<Rightarrow> page \<times> world"
where
  "extension_page srcs descs infos mechanisms incl extensions matrix extension w =
     (case compatibility extension extensions matrix w of
        ((rate, failed, has_data), w1) \<Rightarrow>
          (case (if has_data then get_terminal_outputs extension failed w1 else ([], w1)) of
             (outputs, w2) \<Rightarrow>
               (\<lparr>extension_name = extension,
                 failure_rate = rate,
                 source_code = get_or srcs extension '''',
                 description = description_of descs incl extension,
                 page_failed_extensions = failed,
                 terminal_outputs = outputs,
                 extensibility_types = get_or infos extension [''None''],
                 system_components = get_or mechanisms extension [''None''],
                 has_compatibility_data = has_data,
                 include_descriptions = incl\<rparr>, w2)))"

fun pages_loop ::
  "(string \<Rightarrow> render_context \<Rightarrow> string) \<Rightarrow> string \<Rightarrow> string
     \<Rightarrow> (string \<rightharpoonup> string) \<Rightarrow> (string \<rightharpoonup> string) \<Rightarrow> (string \<rightharpoonup> string list)
     \<Rightarrow> (string \<rightharpoonup> string list) \<Rightarrow> bool \<Rightarrow> string list \<Rightarrow> matrix
     \<Rightarrow> string list \<Rightarrow> world \<Rightarrow> world"
where
  "pages_loop render template build_path srcs descs infos mechanisms incl extensions matrix
     [] w = w"
| "pages_loop render template build_path srcs descs infos mechanisms incl extensions matrix
     (extension # rest) w =
     (case extension_page srcs descs infos mechanisms incl extensions matrix extension w of
        (pg, w1) \<Rightarrow>
          pages_loop render template build_path srcs descs infos mechanisms incl extensions
            matrix rest
            (write_file (os_path_join build_path [extension @ ''.html''])
               (render template (Extension pg)) w1))"

text \<open>The two optional copies of assets, with what they print.\<close>

definition copy_assets :: "string \<Rightarrow> world \<Rightarrow> world" where
  "copy_assets build_path w =
     (let w1 = (if exists w ''layout/css''
                then print (Print ''CSS files copied successfully'')
                       (copytree ''layout/css'' (os_path_join build_path [''css'']) w)
                else print (Print ''Warning: layout/css directory not found'') w)
      in if exists w1 ''portraits''
         then print (Print ''Portraits directory copied successfully'')
                (copytree ''portraits'' (os_path_join build_path [''portraits'']) w1)
         else print (Print ''Warning: portraits directory not found'') w1)"

definition layout_missing_lines :: "output_line list" where
  "layout_missing_lines =
     [Print ''Error: 'layout' directory not found. Please create the layout directory with templates.'',
      Print ''Required files:'',
      Print ''- layout/base.html'',
      Print ''- layout/index.html'',
      Print ''- layout/results.html'',
      Print ''- layout/extension.html'',
      Print ''- layout/css/custom.css'']"

definition summary_lines :: "string \<Rightarrow> string list \<Rightarrow> output_line list" where
  "summary_lines build_path all_extensions =
     [Print (''Website generated successfully in '' @ [CHR 0x27] @ build_path @ [CHR 0x27]
               @ '' directory!''),
      Print (''Generated '' @ str_nat (length all_extensions + 2) @ '' HTML files:''),
      Print ''- index.html (homepage)'',
      Print ''- results.html (results overview)'']
     @ map (\<lambda>ext. Print (''- '' @ ext @ ''.html'')) all_extensions"

text \<open>
  \<open>generate_website\<close>, from the reading of the tables to the last page. An exception
  that the source does not catch ends the run: the result is the error.
\<close>

definition write_site ::
  "(string \<Rightarrow> render_context \<Rightarrow> string) \<Rightarrow> string \<Rightarrow> bool
     \<Rightarrow> (string \<rightharpoonup> string) \<Rightarrow> (string \<rightharpoonup> string) \<Rightarrow> (string \<rightharpoonup> string list)
     \<Rightarrow> (string \<rightharpoonup> string list) \<Rightarrow> string list \<Rightarrow> string list \<Rightarrow> matrix
     \<Rightarrow> world \<Rightarrow> py_error + world"
where
  "write_site render build_path incl srcs descs infos mechanisms all_extensions extensions matrix w =
     (case extension_data_loop srcs descs incl extensions matrix all_extensions [] w of
        (extension_data, w1) \<Rightarrow>
          (let w2 = mkdir build_path w1;
               w3 = mkdir (os_path_join build_path [''css'']) w2;
               w4 = copy_assets build_path w3
           in case get_template w4 ''index.html'' of
                Inl e \<Rightarrow> Inl e
              | Inr t_index \<Rightarrow>
                  (let w5 = write_file (os_path_join build_path [''index.html''])
                              (render t_index Home) w4
                   in case get_template w5 ''results.html'' of
                        Inl e \<Rightarrow> Inl e
                      | Inr t_results \<Rightarrow>
                          (let w6 = write_file (os_path_join build_path [''results.html''])
                                      (render t_results (Results extension_data incl)) w5
                           in case get_template w6 ''extension.html'' of
                                Inl e \<Rightarrow> Inl e
                              | Inr t_extension \<Rightarrow>
                                  Inr (fold print (summary_lines build_path all_extensions)
                                        (pages_loop render t_extension build_path srcs descs
                                           infos mechanisms incl extensions matrix
                                           all_extensions w6))))))"

definition generate_website ::
  "(string \<Rightarrow> csv_row list) \<Rightarrow> (string \<Rightarrow> render_context \<Rightarrow> string)
     \<Rightarrow> string \<Rightarrow> string \<Rightarrow> bool \<Rightarrow> world \<Rightarrow> py_error + world"
where
  "generate_website DictReader render csv_file_path build_path incl w =
     (if \<not> exists w ''layout'' then Inr (fold print layout_missing_lines w)
      else case open_read w csv_file_path of
             Inl e \<Rightarrow> Inl e
           | Inr csv_content \<Rightarrow>
               (case parse_source_code_csv DictReader ''csvs/source_code.csv'' w of
                  (srcs, w1) \<Rightarrow>
                    (case parse_descriptions_csv DictReader ''csvs/descriptions.csv'' w1 of
                       (descs, w2) \<Rightarrow>
                         (case parse_infos_csv DictReader ''csvs/infos.csv'' w2 of
                            ((infos, all_extensions), w3) \<Rightarrow>
                              (case parse_mechanisms_csv DictReader ''csvs/mechanisms.csv'' w3 of
                                 (mechanisms, w4) \<Rightarrow>
                                   (case parse_csv csv_content of
                                      Inl e \<Rightarrow> Inl e
                                    | Inr (extensions, matrix) \<Rightarrow>
                                        write_site render build_path incl srcs descs infos
                                          mechanisms all_extensions extensions matrix w4))))))"

text \<open>
  The script itself: the matrix is read from \<open>csvs/compatibility.csv\<close>, without
  descriptions, and nothing is generated when that file does not exist.
\<close>

definition main_lines :: "output_line list" where
  "main_lines =
     [Print ''CSV file 'csvs/compatibility.csv' not found. Please ensure the file exists and update the path.'',
      Print ([CHR 0x0A] @ ''To use this script:''),
      Print (''1. Save your CSV data to 'csvs/compatibility.csv'' @ [CHR 0x27]),
      Print ''2. Create layout directory with template files'',
      Print ''3. Run the script: python render.py'',
      Print ''4. Set show_descriptions = False to hide descriptions'']"

definition main ::
  "(string \<Rightarrow> csv_row list) \<Rightarrow> (string \<Rightarrow> render_context \<Rightarrow> string) \<Rightarrow> world \<Rightarrow> py_error + world"
where
  "main DictReader render w =
     (if exists w ''csvs/compatibility.csv''
      then generate_website DictReader render ''csvs/compatibility.csv'' ''build'' False w
      else Inr (fold print main_lines w))"

section \<open>An example site\<close>

text \<open>
  A small input tree: the layout with its three templates, a matrix over A and B, and a
  metadata table that names A and D. The reader of the example yields the two rows of
  that table; its templating engine returns the text of the template.
\<close>

definition example_fs :: "string \<rightharpoonup> node" where
  "example_fs =
     [''layout'' \<mapsto> Directory,
      ''layout/index.html'' \<mapsto> Text ''home'',
      ''layout/results.html'' \<mapsto> Text ''results'',
      ''layout/extension.html'' \<mapsto> Text ''extension'',
      ''csvs/compatibility.csv'' \<mapsto> Text ('',A,B'' @ [CHR 0x0A] @ ''A,-,no'' @ [CHR 0x0A] @ ''B,yes,-''),
      ''csvs/infos.csv'' \<mapsto> Text ''infos'']"

definition example_world :: world where
  "example_world = \<lparr>fs = example_fs, stdout = [], aggregator_calls = []\<rparr>"

definition example_reader :: "string \<Rightarrow> csv_row list" where
  "example_reader body =
     (if body = ''infos''
      then [[''Extension Name'' \<mapsto> Str ''A''], [''Extension Name'' \<mapsto> Str ''D'']]
      else [])"

definition example_render :: "string \<Rightarrow> render_context \<Rightarrow> string" where
  "example_render template ctx = template"

text \<open>The four warnings of the readers, for the paths that \<open>generate_website\<close> reads.\<close>

definition missing_lines :: "output_line list" where
  "missing_lines =
     [Print ''Warning: csvs/source_code.csv not found. Source code links will not be available.'',
      Print ''Warning: csvs/descriptions.csv not found. Descriptions will not be available.'',
      Print ''Warning: csvs/infos.csv not found. Extensibility info will not be available.'',
      Print ''Warning: csvs/mechanisms.csv not found. System components info will not be available.'']"

text \<open>
  A tree with the layout and nothing else, and the same tree with a matrix file.
\<close>

definition bare_world :: world where
  "bare_world =
     \<lparr>fs = [''layout'' \<mapsto> Directory,
             ''layout/index.html'' \<mapsto> Text ''home'',
             ''layout/results.html'' \<mapsto> Text ''results'',
             ''layout/extension.html'' \<mapsto> Text ''extension''],
      stdout = [], aggregator_calls = []\<rparr>"

definition matrix_only_world :: world where
  "matrix_only_world =
     bare_world\<lparr>fs := (fs bare_world)
       (''csvs/compatibility.csv'' \<mapsto>
          Text ('',A,B'' @ [CHR 0x0A] @ ''A,-,no'' @ [CHR 0x0A] @ ''B,yes,-''))\<rparr>"

section \<open>Inputs and outputs of a run\<close>

text \<open>
  The paths that a run of \<open>generate_website\<close> may read, and the paths of what it
  produces: these predicates are not functions of the source, they name sets of paths
  for the statement of determinism. An input path is the layout directory, the matrix
  file, one of the four tables, one of the three templates, the two asset directories
  and what is under them, or the terminal output of a pair. An HTML output is the home
  page, the results page or the page of a metadata name. A copied asset is a path under
  one of the two asset directories of the output tree whose source exists.
  \<open>agree A w v\<close> says that two trees hold the same node at every path of \<open>A\<close>.
\<close>

definition evidence_path :: "string \<Rightarrow> string" where
  "evidence_path direction = os_path_join ''total_compat_output'' [direction, ''terminal.txt'']"

definition input_path :: "string \<Rightarrow> string \<Rightarrow> bool" where
  "input_path csv_file_path p \<longleftrightarrow>
     p = ''layout'' \<or> p = csv_file_path
     \<or> p = ''csvs/source_code.csv'' \<or> p = ''csvs/descriptions.csv''
     \<or> p = ''csvs/infos.csv'' \<or> p = ''csvs/mechanisms.csv''
     \<or> p = os_path_join ''layout'' [''index.html'']
     \<or> p = os_path_join ''layout'' [''results.html'']
     \<or> p = os_path_join ''layout'' [''extension.html'']
     \<or> p = ''layout/css'' \<or> (\<exists>rel. startswith rel ''/'' \<and> p = ''layout/css'' @ rel)
     \<or> p = ''portraits'' \<or> (\<exists>rel. startswith rel ''/'' \<and> p = ''portraits'' @ rel)
     \<or> (\<exists>direction. p = evidence_path direction)"

definition html_output :: "string \<Rightarrow> string list \<Rightarrow> string \<Rightarrow> bool" where
  "html_output build_path all_extensions p \<longleftrightarrow>
     p = os_path_join build_path [''index.html'']
     \<or> p = os_path_join build_path [''results.html'']
     \<or> (\<exists>extension \<in> set all_extensions. p = os_path_join build_path [extension @ ''.html''])"

definition copied_asset :: "world \<Rightarrow> string \<Rightarrow> string \<Rightarrow> bool" where
  "copied_asset w build_path p \<longleftrightarrow>
     (fs w ''layout/css'' \<noteq> None
      \<and> (\<exists>rel. startswith rel ''/'' \<and> p = os_path_join build_path [''css''] @ rel
                \<and> fs w (''layout/css'' @ rel) \<noteq> None))
     \<or> (fs w ''portraits'' \<noteq> None
      \<and> (\<exists>rel. startswith rel ''/'' \<and> p = os_path_join build_path [''portraits''] @ rel
                \<and> fs w (''portraits'' @ rel) \<noteq> None))"

definition agree :: "(string \<Rightarrow> bool) \<Rightarrow> world \<Rightarrow> world \<Rightarrow> bool" where
  "agree A w v \<longleftrightarrow> (\<forall>p. A p \<longrightarrow> fs w p = fs v p)"

text \<open>
  The example tree after an earlier run left a home page behind, with something already
  printed.
\<close>

definition stale_world :: world where
  "stale_world =
     example_world\<lparr>fs := (fs example_world)(''build/index.html'' \<mapsto> Text ''stale''),
                    stdout := [Print ''earlier run'']\<rparr>"

section \<open>Rounding to a float\<close>

lemma pow2_powi: "pow2 e = 2 powi e"
  by (simp add: pow2_def power_int_def field_simps)

lemma pow2_pos: "0 < pow2 e"
  by (simp add: pow2_powi)

lemma pow2_add: "pow2 (a + b) = pow2 a * pow2 b"
  by (simp add: pow2_powi power_int_add)

lemma pow2_mono: "a \<le> b \<Longrightarrow> pow2 a \<le> pow2 b"
  by (simp add: pow2_powi power_int_increasing)

lemma pow2_less: "pow2 a < pow2 b \<Longrightarrow> a < b"
  using pow2_mono [of b a] by (cases "a < b") auto

lemma bitlen_lower: "0 < n \<Longrightarrow> pow2 (bitlen n - 1) \<le> of_int n"
proof -
  assume n: "0 < n"
  then have b: "1 \<le> bitlen n" by (simp add: bitlen_alt_def)
  from bitlen_bounds [OF n] have "(2::int) ^ nat (bitlen n - 1) \<le> n" ..
  then have "(of_int ((2::int) ^ nat (bitlen n - 1)) :: rat) \<le> of_int n"
    by (simp only: of_int_le_iff)
  with b show ?thesis by (simp add: pow2_def)
qed

lemma bitlen_upper: "0 < n \<Longrightarrow> (of_int n :: rat) < pow2 (bitlen n)"
proof -
  assume n: "0 < n"
  from bitlen_bounds [OF n] have "n < (2::int) ^ nat (bitlen n)" ..
  then have "(of_int n :: rat) < of_int ((2::int) ^ nat (bitlen n))"
    by (simp only: of_int_less_iff)
  then show ?thesis by (simp add: pow2_def bitlen_nonneg)
qed

lemma round_half_even_error: "\<bar>of_int (round_half_even r) - r\<bar> \<le> 1 / 2"
proof -
  have "of_int \<lfloor>r\<rfloor> \<le> r" "r < of_int \<lfloor>r\<rfloor> + 1" by linarith+
  then show ?thesis
    unfolding round_half_even_def Let_def by (auto simp add: abs_le_iff)
qed

lemma exponent_lower:
  assumes "x \<noteq> 0"
  shows "pow2 (exponent x) \<le> \<bar>x\<bar>"
proof -
  obtain p q where pq: "quotient_of x = (p, q)" by (cases "quotient_of x")
  then have q: "0 < q" by (rule quotient_of_denom_pos)
  from pq have x: "x = of_int p / of_int q" by (rule quotient_of_div)
  with assms have p: "0 < \<bar>p\<bar>" by auto
  let ?a = "bitlen \<bar>p\<bar>" and ?b = "bitlen q"
  show ?thesis
  proof (cases "pow2 (?a - ?b) \<le> \<bar>x\<bar>")
    case True
    with pq show ?thesis by (simp add: exponent_def Let_def)
  next
    case False
    have "pow2 (?a - ?b - 1) * of_int q \<le> pow2 (?a - ?b - 1) * pow2 ?b"
      using bitlen_upper [OF q] pow2_pos [of "?a - ?b - 1"] by simp
    also have "\<dots> = pow2 (?a - 1)"
      by (simp add: pow2_add [symmetric])
    also have "\<dots> \<le> of_int \<bar>p\<bar>"
      by (rule bitlen_lower [OF p])
    finally have "pow2 (?a - ?b - 1) \<le> of_int \<bar>p\<bar> / of_int q"
      using q by (simp add: pos_le_divide_eq)
    also have "\<dots> = \<bar>x\<bar>"
      using q x by simp
    finally show ?thesis
      using False pq by (simp add: exponent_def Let_def)
  qed
qed

lemma exponent_le:
  assumes "x \<noteq> 0" and "\<bar>x\<bar> < pow2 (k + 1)"
  shows "exponent x \<le> k"
proof -
  from exponent_lower [OF assms(1)] assms(2) have "pow2 (exponent x) < pow2 (k + 1)"
    by simp
  from pow2_less [OF this] show ?thesis by simp
qed

lemma double_error:
  "\<bar>double x - x\<bar> \<le> pow2 (max (exponent x) (- 1022) - 53)"
proof (cases "x = 0")
  case True
  then show ?thesis using pow2_pos [of "max (exponent x) (- 1022) - 53"] by (simp add: double_def)
next
  case False
  let ?u = "pow2 (max (exponent x) (- 1022) - 52)"
  have u: "0 < ?u" by (rule pow2_pos)
  have "double x - x = (of_int (round_half_even (x / ?u)) - x / ?u) * ?u"
    using False u by (simp add: double_def Let_def left_diff_distrib)
  then have "\<bar>double x - x\<bar> = \<bar>of_int (round_half_even (x / ?u)) - x / ?u\<bar> * ?u"
    using u by (simp only: abs_mult abs_of_pos)
  also have "\<dots> \<le> 1 / 2 * ?u"
    using round_half_even_error [of "x / ?u"] u by (simp only: mult_right_mono less_imp_le)
  also have "\<dots> = pow2 (- 1) * ?u" by (simp add: pow2_def)
  also have "\<dots> = pow2 (max (exponent x) (- 1022) - 53)"
    by (simp add: pow2_add [symmetric])
  finally show ?thesis .
qed

lemma double_error_le:
  assumes "\<bar>x\<bar> < pow2 (k + 1)" and "- 1022 \<le> k"
  shows "\<bar>double x - x\<bar> \<le> pow2 (k - 53)"
proof (cases "x = 0")
  case True
  then show ?thesis using pow2_pos [of "k - 53"] by (simp add: double_def)
next
  case False
  from exponent_le [OF False assms(1)] assms(2)
  have "max (exponent x) (- 1022) - 53 \<le> k - 53" by simp
  from pow2_mono [OF this] double_error [of x] show ?thesis by simp
qed

lemma percentage_error:
  assumes "f \<le> t" and "0 < t"
  shows "\<bar>double (double (of_nat f / of_nat t) * 100) - 100 * of_nat f / of_nat t\<bar> \<le> 164 / 2 ^ 53"
proof -
  let ?y = "of_nat f / of_nat t :: rat"
  have y: "0 \<le> ?y" "?y \<le> 1" using assms by simp_all
  then have "\<bar>?y\<bar> < pow2 (0 + 1)" by (simp add: pow2_def)
  from double_error_le [OF this] have e1: "\<bar>double ?y - ?y\<bar> \<le> pow2 (- 53)" by simp
  let ?z = "double ?y * 100"
  have e1': "\<bar>?z - 100 * ?y\<bar> \<le> 100 * pow2 (- 53)"
    using e1 by (simp add: abs_le_iff)
  have "\<bar>?z\<bar> \<le> \<bar>?z - 100 * ?y\<bar> + \<bar>100 * ?y\<bar>" by linarith
  also have "\<dots> \<le> 100 * pow2 (- 53) + 100"
    using e1' y by simp
  also have "\<dots> < pow2 (6 + 1)" by (simp add: pow2_def)
  finally have "\<bar>?z\<bar> < pow2 (6 + 1)" .
  from double_error_le [OF this] have e2: "\<bar>double ?z - ?z\<bar> \<le> pow2 (- 47)" by simp
  have "\<bar>double ?z - 100 * ?y\<bar> \<le> \<bar>double ?z - ?z\<bar> + \<bar>?z - 100 * ?y\<bar>" by simp
  also have "\<dots> \<le> pow2 (- 47) + 100 * pow2 (- 53)" using e1' e2 by simp
  also have "\<dots> = 164 / 2 ^ 53" by (simp add: pow2_def)
  finally show ?thesis by simp
qed

lemma double_half: "double (1 / 2) = 1 / 2"
  by code_simp

lemma double_fifty: "double 50 = 50"
  by code_simp

lemma double_eleven_twentieths:
  "double (double (11 / 20) * 100) = 7740561859543041 / 140737488355328"
  by code_simp

section \<open>The loops of the aggregator\<close>

lemma check_row_total:
  "total_tests (check_row e row x st) =
     total_tests st + (if x \<noteq> e \<and> row x \<noteq> None then 1 else 0)"
  by (simp add: check_row_def)

lemma check_row_failures:
  "failures (check_row e row x st) =
     failures st + (if x \<noteq> e \<and> row x = Some ''no'' then 1 else 0)"
  by (simp add: check_row_def)

lemma check_row_failed:
  "failed_extensions (check_row e row x st) =
     failed_extensions st \<union> (if x \<noteq> e \<and> row x = Some ''no'' then {x} else {})"
  by (simp add: check_row_def)

lemma check_column_total:
  "total_tests (check_column e m x st) =
     total_tests st + (if x \<noteq> e \<and> cell m x e \<noteq> None then 1 else 0)"
  by (simp add: check_column_def cell_def split: option.splits)

lemma check_column_failures:
  "failures (check_column e m x st) =
     failures st + (if x \<noteq> e \<and> cell m x e = Some ''no'' then 1 else 0)"
  by (simp add: check_column_def cell_def split: option.splits)

lemma check_column_failed:
  "failed_extensions (check_column e m x st) =
     failed_extensions st \<union> (if x \<noteq> e \<and> cell m x e = Some ''no'' then {x} else {})"
  by (simp add: check_column_def cell_def split: option.splits)

lemma fold_check_row_total:
  "total_tests (fold (check_row e row) xs st) =
     total_tests st + length [x \<leftarrow> xs. x \<noteq> e \<and> row x \<noteq> None]"
  by (induction xs arbitrary: st) (simp_all add: check_row_total)

lemma fold_check_row_failures:
  "failures (fold (check_row e row) xs st) =
     failures st + length [x \<leftarrow> xs. x \<noteq> e \<and> row x = Some ''no'']"
  by (induction xs arbitrary: st) (simp_all add: check_row_failures)

lemma fold_check_row_failed:
  "failed_extensions (fold (check_row e row) xs st) =
     failed_extensions st \<union> {x \<in> set xs. x \<noteq> e \<and> row x = Some ''no''}"
  by (induction xs arbitrary: st) (auto simp add: check_row_failed)

lemma fold_check_column_total:
  "total_tests (fold (check_column e m) xs st) =
     total_tests st + length [x \<leftarrow> xs. x \<noteq> e \<and> cell m x e \<noteq> None]"
  by (induction xs arbitrary: st) (simp_all add: check_column_total)

lemma fold_check_column_failures:
  "failures (fold (check_column e m) xs st) =
     failures st + length [x \<leftarrow> xs. x \<noteq> e \<and> cell m x e = Some ''no'']"
  by (induction xs arbitrary: st) (simp_all add: check_column_failures)

lemma fold_check_column_failed:
  "failed_extensions (fold (check_column e m) xs st) =
     failed_extensions st \<union> {x \<in> set xs. x \<noteq> e \<and> cell m x e = Some ''no''}"
  by (induction xs arbitrary: st) (auto simp add: check_column_failed)

lemma run_checks_total:
  "total_tests (run_checks e xs m) =
     length [x \<leftarrow> xs. x \<noteq> e \<and> cell m e x \<noteq> None]
     + length [x \<leftarrow> xs. x \<noteq> e \<and> cell m x e \<noteq> None]"
  by (cases "m e")
     (simp_all add: run_checks_def fold_check_row_total fold_check_column_total cell_def)

lemma run_checks_failures:
  "failures (run_checks e xs m) =
     length [x \<leftarrow> xs. x \<noteq> e \<and> cell m e x = Some ''no'']
     + length [x \<leftarrow> xs. x \<noteq> e \<and> cell m x e = Some ''no'']"
  by (cases "m e")
     (simp_all add: run_checks_def fold_check_row_failures fold_check_column_failures cell_def)

lemma run_checks_failed:
  "failed_extensions (run_checks e xs m) =
     {x \<in> set xs. x \<noteq> e \<and> (cell m e x = Some ''no'' \<or> cell m x e = Some ''no'')}"
  by (cases "m e")
     (auto simp add: run_checks_def fold_check_row_failed fold_check_column_failed cell_def)

lemma finite_run_checks_failed: "finite (failed_extensions (run_checks e xs m))"
  by (simp add: run_checks_failed)

lemma length_filter_card:
  "distinct xs \<Longrightarrow> length (filter P xs) = card {x \<in> set xs. P x}"
  by (simp add: distinct_length_filter Int_def conj_commute)

lemma length_filter_mono:
  "(\<And>x. P x \<Longrightarrow> Q x) \<Longrightarrow> length (filter P xs) \<le> length (filter Q xs)"
  by (induction xs) auto

lemma run_checks_failures_le: "failures (run_checks e xs m) \<le> total_tests (run_checks e xs m)"
proof -
  have "length [x \<leftarrow> xs. x \<noteq> e \<and> cell m e x = Some ''no'']
          \<le> length [x \<leftarrow> xs. x \<noteq> e \<and> cell m e x \<noteq> None]"
    by (rule length_filter_mono) auto
  moreover have "length [x \<leftarrow> xs. x \<noteq> e \<and> cell m x e = Some ''no'']
          \<le> length [x \<leftarrow> xs. x \<noteq> e \<and> cell m x e \<noteq> None]"
    by (rule length_filter_mono) auto
  ultimately show ?thesis
    by (simp only: run_checks_total run_checks_failures add_mono)
qed

lemma calculate_rate:
  "fst (calculate_failure_rate_and_failed_extensions e xs m) =
     (if total_tests (run_checks e xs m) > 0
      then double (double (of_nat (failures (run_checks e xs m))
                             / of_nat (total_tests (run_checks e xs m))) * 100)
      else 0)"
  by (simp add: calculate_failure_rate_and_failed_extensions_def Let_def)

lemma calculate_failed:
  "snd (calculate_failure_rate_and_failed_extensions e xs m) =
     sorted_list_of_set (failed_extensions (run_checks e xs m))"
  by (simp add: calculate_failure_rate_and_failed_extensions_def Let_def)

lemma matrix_abc_A:
  "calculate_failure_rate_and_failed_extensions ''A'' [''A'', ''B'', ''C''] matrix_abc
     = (50, [''B'', ''C''])"
proof -
  have t: "total_tests (run_checks ''A'' [''A'', ''B'', ''C''] matrix_abc) = 4"
    by (simp add: run_checks_def check_row_def check_column_def matrix_abc_def)
  have f: "failures (run_checks ''A'' [''A'', ''B'', ''C''] matrix_abc) = 2"
    by (simp add: run_checks_def check_row_def check_column_def matrix_abc_def)
  have s: "sorted_list_of_set (failed_extensions (run_checks ''A'' [''A'', ''B'', ''C''] matrix_abc))
             = [''B'', ''C'']"
    by (simp add: run_checks_def check_row_def check_column_def matrix_abc_def)
  have r: "double (double (of_nat 2 / of_nat 4) * 100) = 50"
    by (simp add: double_half double_fifty)
  show ?thesis
    by (rule prod_eqI) (simp_all add: calculate_rate calculate_failed t f s r del: of_nat_numeral)
qed

section \<open>Properties of the aggregator\<close>

text \<open>
  Claim C1, as the code has it. For every extension \<open>e\<close>, list of known names \<open>xs\<close> and
  matrix \<open>m\<close>: the aggregator counts one test for each entry \<open>x \<noteq> e\<close> of the list whose
  cell \<open>(e, x)\<close> is recorded (row pass) and one for each whose cell \<open>(x, e)\<close> is recorded
  (column pass); it counts a failure, and puts \<open>x\<close> in the failing set, exactly when such a
  cell is \<open>no\<close>; the list returned is the failing set, sorted. When there is a test the
  rate is the float nearest to 100 times the float nearest to \<open>failures / tests\<close>, which
  is within \<open>164 / 2 ^ 53\<close> of \<open>100 * failures / tests\<close>; with no test it is \<open>0\<close>. When
  the names of the list are distinct, the entries counted are the recorded cells
  themselves.
\<close>

theorem aggregator_counts_and_rounded_rate:
  "total_tests (run_checks e xs m) =
      length [x \<leftarrow> xs. x \<noteq> e \<and> cell m e x \<noteq> None]
      + length [x \<leftarrow> xs. x \<noteq> e \<and> cell m x e \<noteq> None]
   \<and> failures (run_checks e xs m) =
      length [x \<leftarrow> xs. x \<noteq> e \<and> cell m e x = Some ''no'']
      + length [x \<leftarrow> xs. x \<noteq> e \<and> cell m x e = Some ''no'']
   \<and> failed_extensions (run_checks e xs m) =
      {x \<in> set xs. x \<noteq> e \<and> (cell m e x = Some ''no'' \<or> cell m x e = Some ''no'')}
   \<and> calculate_failure_rate_and_failed_extensions e xs m =
      ((if total_tests (run_checks e xs m) > 0
        then double (double (of_nat (failures (run_checks e xs m))
                               / of_nat (total_tests (run_checks e xs m))) * 100)
        else 0),
       sorted_list_of_set (failed_extensions (run_checks e xs m)))
   \<and> \<bar>fst (calculate_failure_rate_and_failed_extensions e xs m)
        - (if total_tests (run_checks e xs m) > 0
           then 100 * of_nat (failures (run_checks e xs m)) / of_nat (total_tests (run_checks e xs m))
           else 0)\<bar> \<le> 164 / 2 ^ 53
   \<and> (distinct xs \<longrightarrow>
        total_tests (run_checks e xs m) =
          card {x \<in> set xs. x \<noteq> e \<and> cell m e x \<noteq> None}
          + card {x \<in> set xs. x \<noteq> e \<and> cell m x e \<noteq> None}
        \<and> failures (run_checks e xs m) =
          card {x \<in> set xs. x \<noteq> e \<and> cell m e x = Some ''no''}
          + card {x \<in> set xs. x \<noteq> e \<and> cell m x e = Some ''no''})"
proof -
  have rate: "calculate_failure_rate_and_failed_extensions e xs m =
      ((if total_tests (run_checks e xs m) > 0
        then double (double (of_nat (failures (run_checks e xs m))
                               / of_nat (total_tests (run_checks e xs m))) * 100)
        else 0),
       sorted_list_of_set (failed_extensions (run_checks e xs m)))"
    by (simp add: calculate_failure_rate_and_failed_extensions_def Let_def)
  have bound: "\<bar>fst (calculate_failure_rate_and_failed_extensions e xs m)
        - (if total_tests (run_checks e xs m) > 0
           then 100 * of_nat (failures (run_checks e xs m)) / of_nat (total_tests (run_checks e xs m))
           else 0)\<bar> \<le> 164 / 2 ^ 53"
  proof (cases "total_tests (run_checks e xs m) > 0")
    case True
    from percentage_error [OF run_checks_failures_le True] True show ?thesis
      by (simp only: calculate_rate if_True)
  next
    case False
    then show ?thesis by (simp add: calculate_rate)
  qed
  have card: "distinct xs \<longrightarrow>
        total_tests (run_checks e xs m) =
          card {x \<in> set xs. x \<noteq> e \<and> cell m e x \<noteq> None}
          + card {x \<in> set xs. x \<noteq> e \<and> cell m x e \<noteq> None}
        \<and> failures (run_checks e xs m) =
          card {x \<in> set xs. x \<noteq> e \<and> cell m e x = Some ''no''}
          + card {x \<in> set xs. x \<noteq> e \<and> cell m x e = Some ''no''}"
  proof
    assume d: "distinct xs"
    show "total_tests (run_checks e xs m) =
          card {x \<in> set xs. x \<noteq> e \<and> cell m e x \<noteq> None}
          + card {x \<in> set xs. x \<noteq> e \<and> cell m x e \<noteq> None}
        \<and> failures (run_checks e xs m) =
          card {x \<in> set xs. x \<noteq> e \<and> cell m e x = Some ''no''}
          + card {x \<in> set xs. x \<noteq> e \<and> cell m x e = Some ''no''}"
      by (simp only: run_checks_total run_checks_failures length_filter_card [OF d])
  qed
  show ?thesis
    using run_checks_total [of e xs m] run_checks_failures [of e xs m]
      run_checks_failed [of e xs m] rate bound card
    by blast
qed

theorem aggregator_counts_and_rounded_rate_witness:
  "distinct [''A'', ''B'', ''C'']
   \<and> total_tests (run_checks ''A'' [''A'', ''B'', ''C''] matrix_abc) = 4
   \<and> failures (run_checks ''A'' [''A'', ''B'', ''C''] matrix_abc) = 2
   \<and> card {x \<in> set [''A'', ''B'', ''C'']. x \<noteq> ''A'' \<and> cell matrix_abc ''A'' x \<noteq> None}
     + card {x \<in> set [''A'', ''B'', ''C'']. x \<noteq> ''A'' \<and> cell matrix_abc x ''A'' \<noteq> None} = 4
   \<and> calculate_failure_rate_and_failed_extensions ''A'' [''A'', ''B'', ''C''] matrix_abc
       = (50, [''B'', ''C''])"
proof -
  have d: "distinct [''A'', ''B'', ''C'']" by simp
  have t: "total_tests (run_checks ''A'' [''A'', ''B'', ''C''] matrix_abc) = 4"
    by (simp add: run_checks_def check_row_def check_column_def matrix_abc_def)
  have f: "failures (run_checks ''A'' [''A'', ''B'', ''C''] matrix_abc) = 2"
    by (simp add: run_checks_def check_row_def check_column_def matrix_abc_def)
  note th = aggregator_counts_and_rounded_rate [of "''A''" "[''A'', ''B'', ''C'']" matrix_abc]
  have c: "card {x \<in> set [''A'', ''B'', ''C'']. x \<noteq> ''A'' \<and> cell matrix_abc ''A'' x \<noteq> None}
     + card {x \<in> set [''A'', ''B'', ''C'']. x \<noteq> ''A'' \<and> cell matrix_abc x ''A'' \<noteq> None} = 4"
    using th d t by simp
  show ?thesis
    using d t f c matrix_abc_A by simp
qed

text \<open>
  The rate that claim C1 states, \<open>100 * failures / tests\<close>, is not what the code
  returns. For \<open>k\<close> in the matrix of twenty cells, eleven of them \<open>no\<close>, the exact rate
  is 55, which is a float; the code rounds \<open>11 / 20\<close> first and returns
  \<open>7740561859543041 / 2 ^ 47\<close>, the float that Python prints as 55.00000000000001.
\<close>

theorem exact_rate_counterexample:
  "total_tests (run_checks ''k'' (''k'' # ten_names) matrix_eleven) = 20
   \<and> failures (run_checks ''k'' (''k'' # ten_names) matrix_eleven) = 11
   \<and> fst (calculate_failure_rate_and_failed_extensions ''k'' (''k'' # ten_names) matrix_eleven)
       = 7740561859543041 / 140737488355328
   \<and> fst (calculate_failure_rate_and_failed_extensions ''k'' (''k'' # ten_names) matrix_eleven)
       \<noteq> 100 * 11 / 20"
proof -
  have t: "total_tests (run_checks ''k'' (''k'' # ten_names) matrix_eleven) = 20"
    by (simp add: run_checks_total cell_def matrix_eleven_def ten_names_def)
  have f: "failures (run_checks ''k'' (''k'' # ten_names) matrix_eleven) = 11"
    by (simp add: run_checks_failures cell_def matrix_eleven_def ten_names_def)
  have r: "fst (calculate_failure_rate_and_failed_extensions ''k'' (''k'' # ten_names) matrix_eleven)
       = 7740561859543041 / 140737488355328"
    by (simp add: calculate_rate t f double_eleven_twentieths)
  show ?thesis
    unfolding r using t f by simp
qed



text \<open>
  Claim C7. The failed list is strictly increasing in the order of strings, has no
  duplicates, and its members are known names other than the extension itself.
\<close>

theorem failed_list_sorted_distinct_subset:
  "sorted_wrt (<) (snd (calculate_failure_rate_and_failed_extensions e xs m))
   \<and> distinct (snd (calculate_failure_rate_and_failed_extensions e xs m))
   \<and> set (snd (calculate_failure_rate_and_failed_extensions e xs m)) \<subseteq> set xs - {e}"
proof -
  have fin: "finite (failed_extensions (run_checks e xs m))"
    by (rule finite_run_checks_failed)
  have "set (sorted_list_of_set (failed_extensions (run_checks e xs m)))
          = failed_extensions (run_checks e xs m)"
    using fin by simp
  moreover have "failed_extensions (run_checks e xs m) \<subseteq> set xs - {e}"
    by (auto simp add: run_checks_failed)
  ultimately show ?thesis
    by (simp add: calculate_failure_rate_and_failed_extensions_def Let_def)
qed

theorem failed_list_sorted_distinct_subset_witness:
  "sorted_wrt (<) [''B'', ''C''] \<and> distinct [''B'', ''C'']
   \<and> set [''B'', ''C''] \<subseteq> set [''A'', ''B'', ''C''] - {''A''}
   \<and> snd (calculate_failure_rate_and_failed_extensions ''A'' [''A'', ''B'', ''C''] matrix_abc)
       = [''B'', ''C'']"
proof -
  have s: "snd (calculate_failure_rate_and_failed_extensions ''A'' [''A'', ''B'', ''C''] matrix_abc)
       = [''B'', ''C'']"
    by (simp add: calculate_failure_rate_and_failed_extensions_def run_checks_def
        check_row_def check_column_def matrix_abc_def)
  show ?thesis
    using failed_list_sorted_distinct_subset [of "''A''" "[''A'', ''B'', ''C'']" matrix_abc]
    unfolding s by simp
qed

text \<open>
  Claim C8. When no cell \<open>(e, x)\<close> and no cell \<open>(x, e)\<close> is recorded for any other known
  name \<open>x\<close>, the aggregator returns the rate 0 and the empty list.
\<close>

theorem no_cells_zero_rate:
  assumes "\<forall>x \<in> set xs. x \<noteq> e \<longrightarrow> cell m e x = None \<and> cell m x e = None"
  shows "calculate_failure_rate_and_failed_extensions e xs m = (0, [])"
proof -
  have "[x \<leftarrow> xs. x \<noteq> e \<and> cell m e x \<noteq> None] = []"
    using assms by (auto simp add: filter_empty_conv)
  moreover have "[x \<leftarrow> xs. x \<noteq> e \<and> cell m x e \<noteq> None] = []"
    using assms by (auto simp add: filter_empty_conv)
  ultimately have t: "total_tests (run_checks e xs m) = 0"
    by (simp only: run_checks_total) simp
  have "failed_extensions (run_checks e xs m) = {}"
    using assms by (auto simp add: run_checks_failed)
  with t show ?thesis
    by (simp add: calculate_failure_rate_and_failed_extensions_def Let_def)
qed

theorem no_cells_zero_rate_witness:
  "cell matrix_abc ''D'' ''A'' = None \<and> cell matrix_abc ''A'' ''D'' = None
   \<and> cell matrix_abc ''D'' ''B'' = None \<and> cell matrix_abc ''B'' ''D'' = None
   \<and> cell matrix_abc ''D'' ''C'' = None \<and> cell matrix_abc ''C'' ''D'' = None
   \<and> calculate_failure_rate_and_failed_extensions ''D'' [''A'', ''B'', ''C'', ''D''] matrix_abc
        = (0, [])"
proof -
  have h: "\<forall>x \<in> set [''A'', ''B'', ''C'', ''D'']. x \<noteq> ''D'' \<longrightarrow>
       cell matrix_abc ''D'' x = None \<and> cell matrix_abc x ''D'' = None"
    by (simp add: cell_def matrix_abc_def)
  show ?thesis
    using h no_cells_zero_rate [OF h] by simp
qed

section \<open>The loops of the matrix parser\<close>

lemma parse_cells_ok_iff:
  "(\<exists>r. parse_cells exts j cells row = Inr r) \<longleftrightarrow> (cells = [] \<or> j + length cells \<le> length exts)"
  by (induction cells arbitrary: j row) auto

lemma parse_cells_error:
  "parse_cells exts j cells row = Inl e \<Longrightarrow> e = IndexError"
  by (induction cells arbitrary: j row) (auto split: if_splits)

lemma parse_cells_dom:
  "parse_cells exts j cells row = Inr r \<Longrightarrow> dom r \<subseteq> dom row \<union> set exts"
proof (induction cells arbitrary: j row)
  case Nil
  then show ?case by simp
next
  case (Cons c cells)
  from Cons.prems have j: "j < length exts"
    and rest: "parse_cells exts (Suc j) cells (row(exts ! j \<mapsto> lower (strip c))) = Inr r"
    by (auto split: if_splits)
  have "exts ! j \<in> set exts" using j by simp
  then have "dom (row(exts ! j \<mapsto> lower (strip c))) \<subseteq> dom row \<union> set exts"
    by auto
  with Cons.IH [OF rest] show ?case by blast
qed

lemma parse_cells_other:
  "parse_cells exts j cells row = Inr r \<Longrightarrow> \<forall>i < length cells. exts ! (j + i) \<noteq> k \<Longrightarrow> r k = row k"
proof (induction cells arbitrary: j row)
  case Nil
  then show ?case by simp
next
  case (Cons c cells)
  from Cons.prems(1) have j: "j < length exts"
    and rest: "parse_cells exts (Suc j) cells (row(exts ! j \<mapsto> lower (strip c))) = Inr r"
    by (auto split: if_splits)
  have "\<forall>i < length cells. exts ! (Suc j + i) \<noteq> k"
    using Cons.prems(2) by auto
  from Cons.IH [OF rest this] have "r k = (row(exts ! j \<mapsto> lower (strip c))) k" .
  moreover have "exts ! j \<noteq> k" using Cons.prems(2) by force
  ultimately show ?case by simp
qed

lemma parse_cells_value:
  "parse_cells exts j cells row = Inr r \<Longrightarrow> distinct exts \<Longrightarrow> i < length cells \<Longrightarrow>
     r (exts ! (j + i)) = Some (lower (strip (cells ! i)))"
proof (induction cells arbitrary: j row i)
  case Nil
  then show ?case by simp
next
  case (Cons c cells)
  from Cons.prems(1) have j: "j < length exts"
    and rest: "parse_cells exts (Suc j) cells (row(exts ! j \<mapsto> lower (strip c))) = Inr r"
    by (auto split: if_splits)
  show ?case
  proof (cases i)
    case 0
    have ok: "cells = [] \<or> Suc j + length cells \<le> length exts"
      using rest parse_cells_ok_iff [of exts "Suc j" cells "row(exts ! j \<mapsto> lower (strip c))"] by auto
    have "\<forall>i < length cells. exts ! (Suc j + i) \<noteq> exts ! j"
    proof (intro allI impI)
      fix i assume "i < length cells"
      with ok have "Suc j + i < length exts" by auto
      with j Cons.prems(2) show "exts ! (Suc j + i) \<noteq> exts ! j"
        by (simp add: nth_eq_iff_index_eq)
    qed
    from parse_cells_other [OF rest this] 0 show ?thesis by simp
  next
    case (Suc i')
    with Cons.prems(3) have "i' < length cells" by simp
    from Cons.IH [OF rest Cons.prems(2) this] Suc show ?thesis by simp
  qed
qed

lemma split_not_Nil: "split sep s \<noteq> []"
  by (induction s) (auto split: list.splits)

lemma parse_lines_error:
  "parse_lines exts lines m0 = Inl e \<Longrightarrow> e = IndexError"
proof (induction lines arbitrary: m0)
  case Nil
  then show ?case by simp
next
  case (Cons l lines)
  then show ?case
    by (auto split: list.splits sum.splits simp add: Let_def dest: parse_cells_error)
qed

lemma parse_lines_ok:
  "\<forall>l \<in> set lines. length (split CHR '','' l) - 1 \<le> length exts \<Longrightarrow>
     \<exists>m. parse_lines exts lines m0 = Inr m"
proof (induction lines arbitrary: m0)
  case Nil
  then show ?case by simp
next
  case (Cons l lines)
  obtain c0 cells where sp: "split CHR '','' l = c0 # cells"
    using split_not_Nil [of "CHR '',''" l] by (cases "split CHR '','' l") auto
  with Cons.prems have "length cells \<le> length exts" by simp
  then obtain r where r: "parse_cells exts 0 cells (case m0 (strip c0) of None \<Rightarrow> Map.empty | Some r \<Rightarrow> r) = Inr r"
    using parse_cells_ok_iff [of exts 0 cells] by auto
  from Cons.prems have "\<forall>l \<in> set lines. length (split CHR '','' l) - 1 \<le> length exts" by simp
  from Cons.IH [OF this] obtain m where "parse_lines exts lines (m0(strip c0 \<mapsto> r)) = Inr m"
    by blast
  with sp r show ?case by (simp add: Let_def)
qed

lemma parse_lines_wide:
  "\<exists>l \<in> set lines. length (split CHR '','' l) - 1 > length exts \<Longrightarrow>
     parse_lines exts lines m0 = Inl IndexError"
proof (induction lines arbitrary: m0)
  case Nil
  then show ?case by simp
next
  case (Cons l lines)
  obtain c0 cells where sp: "split CHR '','' l = c0 # cells"
    using split_not_Nil [of "CHR '',''" l] by (cases "split CHR '','' l") auto
  show ?case
  proof (cases "parse_cells exts 0 cells (case m0 (strip c0) of None \<Rightarrow> Map.empty | Some r \<Rightarrow> r)")
    case (Inl e)
    with parse_cells_error [OF Inl] sp show ?thesis by (simp add: Let_def)
  next
    case (Inr r)
    then have "cells = [] \<or> length cells \<le> length exts"
      using parse_cells_ok_iff [of exts 0 cells] by auto
    with sp have "\<not> length (split CHR '','' l) - 1 > length exts" by auto
    with Cons.prems have "\<exists>l \<in> set lines. length (split CHR '','' l) - 1 > length exts" by simp
    from Cons.IH [OF this] sp Inr show ?thesis by (simp add: Let_def)
  qed
qed

lemma parse_lines_dom:
  "parse_lines exts lines m0 = Inr m \<Longrightarrow> \<forall>k row. m0 k = Some row \<longrightarrow> dom row \<subseteq> set exts \<Longrightarrow>
     m k = Some row \<Longrightarrow> dom row \<subseteq> set exts"
proof (induction lines arbitrary: m0)
  case Nil
  then show ?case by auto
next
  case (Cons l lines)
  obtain c0 cells where sp: "split CHR '','' l = c0 # cells"
    using split_not_Nil [of "CHR '',''" l] by (cases "split CHR '','' l") auto
  let ?row0 = "case m0 (strip c0) of None \<Rightarrow> Map.empty | Some r \<Rightarrow> r"
  from Cons.prems(1) sp obtain r where r: "parse_cells exts 0 cells ?row0 = Inr r"
    and rest: "parse_lines exts lines (m0(strip c0 \<mapsto> r)) = Inr m"
    by (auto simp add: Let_def split: sum.splits)
  have "dom ?row0 \<subseteq> set exts"
    using Cons.prems(2) by (auto split: option.splits)
  with parse_cells_dom [OF r] have "dom r \<subseteq> set exts" by auto
  with Cons.prems(2) have "\<forall>k row. (m0(strip c0 \<mapsto> r)) k = Some row \<longrightarrow> dom row \<subseteq> set exts"
    by auto
  from Cons.IH [OF rest this Cons.prems(3)] show ?case .
qed

lemma row_name_split: "split CHR '','' l = c0 # cells \<Longrightarrow> row_name l = strip c0"
  by (simp add: row_name_def)

lemma parse_cells_source:
  "parse_cells exts j cells row = Inr r \<Longrightarrow> r k = Some v \<Longrightarrow>
     row k = Some v \<or> (\<exists>c \<in> set cells. v = lower (strip c))"
proof (induction cells arbitrary: j row)
  case Nil
  then show ?case by simp
next
  case (Cons c cells)
  from Cons.prems(1) have
    rest: "parse_cells exts (Suc j) cells (row(exts ! j \<mapsto> lower (strip c))) = Inr r"
    by (auto split: if_splits)
  from Cons.IH [OF rest Cons.prems(2)] show ?case
    by (auto split: if_splits)
qed

lemma parse_lines_source:
  "parse_lines exts lines m0 = Inr m \<Longrightarrow> cell m a b = Some v \<Longrightarrow>
     cell m0 a b = Some v
     \<or> (\<exists>l \<in> set lines. \<exists>c \<in> set (drop 1 (split CHR '','' l)). v = lower (strip c))"
proof (induction lines arbitrary: m0)
  case Nil
  then show ?case by simp
next
  case (Cons l lines)
  obtain c0 cells where sp: "split CHR '','' l = c0 # cells"
    using split_not_Nil [of "CHR '',''" l] by (cases "split CHR '','' l") auto
  let ?row0 = "case m0 (strip c0) of None \<Rightarrow> Map.empty | Some r \<Rightarrow> r"
  from Cons.prems(1) sp obtain r where r: "parse_cells exts 0 cells ?row0 = Inr r"
    and rest: "parse_lines exts lines (m0(strip c0 \<mapsto> r)) = Inr m"
    by (auto simp add: Let_def split: sum.splits)
  from Cons.IH [OF rest Cons.prems(2)]
  consider "cell (m0(strip c0 \<mapsto> r)) a b = Some v"
    | "\<exists>l \<in> set lines. \<exists>c \<in> set (drop 1 (split CHR '','' l)). v = lower (strip c)"
    by blast
  then show ?case
  proof cases
    case 1
    show ?thesis
    proof (cases "a = strip c0")
      case True
      with 1 have "r b = Some v" by (simp add: cell_def)
      from parse_cells_source [OF r this] have "?row0 b = Some v \<or> (\<exists>c \<in> set cells. v = lower (strip c))" .
      then show ?thesis
      proof
        assume "?row0 b = Some v"
        then have "cell m0 a b = Some v"
          using True by (auto simp add: cell_def split: option.splits)
        then show ?thesis by simp
      next
        assume "\<exists>c \<in> set cells. v = lower (strip c)"
        with sp show ?thesis by auto
      qed
    next
      case False
      with 1 have "cell m0 a b = Some v" by (simp add: cell_def)
      then show ?thesis by simp
    qed
  next
    case 2
    then show ?thesis by auto
  qed
qed

lemma parse_lines_other:
  "parse_lines exts lines m0 = Inr m \<Longrightarrow> k \<notin> set (map row_name lines) \<Longrightarrow> m k = m0 k"
proof (induction lines arbitrary: m0)
  case Nil
  then show ?case by simp
next
  case (Cons l lines)
  obtain c0 cells where sp: "split CHR '','' l = c0 # cells"
    using split_not_Nil [of "CHR '',''" l] by (cases "split CHR '','' l") auto
  let ?row0 = "case m0 (strip c0) of None \<Rightarrow> Map.empty | Some r \<Rightarrow> r"
  from Cons.prems(1) sp obtain r where r: "parse_cells exts 0 cells ?row0 = Inr r"
    and rest: "parse_lines exts lines (m0(strip c0 \<mapsto> r)) = Inr m"
    by (auto simp add: Let_def split: sum.splits)
  from Cons.prems(2) have k: "k \<noteq> strip c0" and "k \<notin> set (map row_name lines)"
    using row_name_split [OF sp] by auto
  from Cons.IH [OF rest this(2)] k show ?case by simp
qed

lemma parse_lines_row:
  "parse_lines exts lines m0 = Inr m \<Longrightarrow> distinct (map row_name lines) \<Longrightarrow> i < length lines \<Longrightarrow>
     split CHR '','' (lines ! i) = c0 # cells \<Longrightarrow>
     \<exists>row0 r. parse_cells exts 0 cells row0 = Inr r \<and> m (strip c0) = Some r"
proof (induction lines arbitrary: m0 i)
  case Nil
  then show ?case by simp
next
  case (Cons l lines)
  obtain d0 dells where sp: "split CHR '','' l = d0 # dells"
    using split_not_Nil [of "CHR '',''" l] by (cases "split CHR '','' l") auto
  let ?row0 = "case m0 (strip d0) of None \<Rightarrow> Map.empty | Some r \<Rightarrow> r"
  from Cons.prems(1) sp obtain r where r: "parse_cells exts 0 dells ?row0 = Inr r"
    and rest: "parse_lines exts lines (m0(strip d0 \<mapsto> r)) = Inr m"
    by (auto simp add: Let_def split: sum.splits)
  from Cons.prems(2) have nin: "row_name l \<notin> set (map row_name lines)"
    and dist: "distinct (map row_name lines)" by auto
  show ?case
  proof (cases i)
    case 0
    with Cons.prems(4) sp have eq: "c0 = d0" "cells = dells" by auto
    have "strip d0 \<notin> set (map row_name lines)"
      using nin row_name_split [OF sp] by simp
    from parse_lines_other [OF rest this] have "m (strip d0) = Some r" by simp
    with r eq show ?thesis by blast
  next
    case (Suc i')
    with Cons.prems(3,4) have "i' < length lines" "split CHR '','' (lines ! i') = c0 # cells"
      by auto
    from Cons.IH [OF rest dist this] show ?thesis .
  qed
qed

lemma parse_lines_cell:
  assumes "parse_lines exts lines m0 = Inr m" and "distinct exts"
    and "distinct (map row_name lines)" and "i < length lines"
    and "split CHR '','' (lines ! i) = c0 # cells" and "j < length cells"
  shows "cell m (strip c0) (exts ! j) = Some (lower (strip (cells ! j)))"
proof -
  from parse_lines_row [OF assms(1,3,4,5)] obtain row0 r
    where r: "parse_cells exts 0 cells row0 = Inr r" and m: "m (strip c0) = Some r"
    by blast
  from parse_cells_value [OF r assms(2,6)] m show ?thesis
    by (simp add: cell_def)
qed

lemma parse_csv_Inr:
  "parse_csv text = Inr (exts, m) \<Longrightarrow> split CHR 0x0A (strip text) = l0 # lines \<Longrightarrow>
     exts = map strip (drop 1 (split CHR '','' l0)) \<and> parse_lines exts lines Map.empty = Inr m"
  by (auto simp add: parse_csv_def Let_def split: sum.splits)

lemma parse_csv_ok:
  assumes "split CHR 0x0A (strip text) = l0 # lines"
    and "\<forall>l \<in> set lines. length (split CHR '','' l) - 1 \<le> length (map strip (drop 1 (split CHR '','' l0)))"
  shows "\<exists>m. parse_csv text = Inr (map strip (drop 1 (split CHR '','' l0)), m)"
proof -
  from parse_lines_ok [OF assms(2)] obtain m
    where "parse_lines (map strip (drop 1 (split CHR '','' l0))) lines Map.empty = Inr m"
    by blast
  with assms(1) have "parse_csv text = Inr (map strip (drop 1 (split CHR '','' l0)), m)"
    by (simp add: parse_csv_def Let_def)
  then show ?thesis by blast
qed

section \<open>Properties of the matrix parser\<close>

text \<open>
  Claim C10. The parser is partial. When every data line has at most as many data cells
  as the header has extension columns, \<open>parse_csv\<close> returns the header names and a
  matrix whose inner keys are all header names. When some data line has more, it raises
  \<open>IndexError\<close>; the table whose header has one column and whose only data line has
  two cells is such an input.
\<close>

theorem parse_csv_partial:
  assumes "split CHR 0x0A (strip text) = l0 # lines"
    and "exts = map strip (drop 1 (split CHR '','' l0))"
  shows "((\<forall>l \<in> set lines. length (split CHR '','' l) - 1 \<le> length exts) \<longrightarrow>
            (\<exists>m. parse_csv text = Inr (exts, m)
                 \<and> (\<forall>k row. m k = Some row \<longrightarrow> dom row \<subseteq> set exts)))
         \<and> ((\<exists>l \<in> set lines. length exts < length (split CHR '','' l) - 1) \<longrightarrow>
               parse_csv text = Inl IndexError)
         \<and> (\<exists>t h ls. split CHR 0x0A (strip t) = h # ls
               \<and> (\<exists>l \<in> set ls. length (split CHR '','' h) - 1 < length (split CHR '','' l) - 1)
               \<and> parse_csv t = Inl IndexError)"
proof (intro conjI impI)
  assume fit: "\<forall>l \<in> set lines. length (split CHR '','' l) - 1 \<le> length exts"
  from parse_lines_ok [OF fit] obtain m where m: "parse_lines exts lines Map.empty = Inr m"
    by blast
  have "\<forall>k row. m k = Some row \<longrightarrow> dom row \<subseteq> set exts"
    using parse_lines_dom [OF m] by auto
  moreover have "parse_csv text = Inr (exts, m)"
    using assms m by (simp add: parse_csv_def Let_def)
  ultimately show "\<exists>m. parse_csv text = Inr (exts, m)
                 \<and> (\<forall>k row. m k = Some row \<longrightarrow> dom row \<subseteq> set exts)"
    by blast
next
  assume "\<exists>l \<in> set lines. length exts < length (split CHR '','' l) - 1"
  from parse_lines_wide [OF this] show "parse_csv text = Inl IndexError"
    using assms by (simp add: parse_csv_def Let_def)
next
  let ?t = "'',A'' @ [CHR 0x0A] @ ''A,-,no''"
  have sp: "split CHR 0x0A (strip ?t) = '',A'' # [''A,-,no'']"
    by (simp add: strip_def isspace_def)
  moreover have "\<exists>l \<in> set [''A,-,no'']. length (split CHR '','' '',A'') - 1 < length (split CHR '','' l) - 1"
    by simp
  moreover have "parse_csv ?t = Inl IndexError"
    by (simp add: parse_csv_def strip_def isspace_def lower_def lower_char_def)
  ultimately show "\<exists>t h ls. split CHR 0x0A (strip t) = h # ls
               \<and> (\<exists>l \<in> set ls. length (split CHR '','' h) - 1 < length (split CHR '','' l) - 1)
               \<and> parse_csv t = Inl IndexError"
    by blast
qed

theorem parse_csv_partial_witness:
  "(\<exists>m. parse_csv ('',A,B'' @ [CHR 0x0A] @ ''A,-,no'' @ [CHR 0x0A] @ ''B,yes'') = Inr ([''A'', ''B''], m))
   \<and> parse_csv ('',A'' @ [CHR 0x0A] @ ''A,-,no'') = Inl IndexError"
proof -
  have a1: "split CHR 0x0A (strip ('',A,B'' @ [CHR 0x0A] @ ''A,-,no'' @ [CHR 0x0A] @ ''B,yes''))
              = '',A,B'' # [''A,-,no'', ''B,yes'']"
    by (simp add: strip_def isspace_def)
  have a2: "[''A'', ''B''] = map strip (drop 1 (split CHR '','' '',A,B''))"
    by (simp add: strip_def isspace_def)
  have a3: "\<forall>l \<in> set [''A,-,no'', ''B,yes'']. length (split CHR '','' l) - 1 \<le> length [''A'', ''B'']"
    by simp
  have b1: "split CHR 0x0A (strip ('',A'' @ [CHR 0x0A] @ ''A,-,no'')) = '',A'' # [''A,-,no'']"
    by (simp add: strip_def isspace_def)
  have b2: "[''A''] = map strip (drop 1 (split CHR '','' '',A''))"
    by (simp add: strip_def isspace_def)
  have b3: "\<exists>l \<in> set [''A,-,no'']. length [''A''] < length (split CHR '','' l) - 1"
    by simp
  from parse_csv_partial [OF a1 a2] a3
  have "\<exists>m. parse_csv ('',A,B'' @ [CHR 0x0A] @ ''A,-,no'' @ [CHR 0x0A] @ ''B,yes'') = Inr ([''A'', ''B''], m)"
    by blast
  moreover from parse_csv_partial [OF b1 b2] b3
  have "parse_csv ('',A'' @ [CHR 0x0A] @ ''A,-,no'') = Inl IndexError"
    by blast
  ultimately show ?thesis by blast
qed

text \<open>
  Claim C6. Let the parser return the names \<open>exts\<close> and the matrix \<open>m\<close> for a table.
  Every value that \<open>m\<close> records is the trimmed, lower-cased text of a data cell of the
  table, and when the header names and the row names are distinct the value recorded at
  a row and a column is the normalisation of the cell written there. On this matrix the
  aggregator counts, for an extension \<open>e\<close>, one test for each recorded cell \<open>(e, x)\<close> or
  \<open>(x, e)\<close> with \<open>x \<noteq> e\<close> a header name, and a failure exactly for those whose value is
  \<open>no\<close>; the names it returns are those \<open>x\<close> with such a cell equal to \<open>no\<close>. So the
  cell written at row \<open>e\<close> and column \<open>x\<close> puts \<open>x\<close> in the failed list of \<open>e\<close>, and \<open>e\<close>
  in that of \<open>x\<close>, exactly when its normalisation is \<open>no\<close>, unless the cell of the other
  direction does. The aggregator is a total function: no value makes it raise.
\<close>

theorem failure_iff_normalised_no:
  assumes "parse_csv text = Inr (exts, m)"
    and "split CHR 0x0A (strip text) = l0 # lines"
  shows "(\<forall>a b v. cell m a b = Some v \<longrightarrow>
            (\<exists>l \<in> set lines. \<exists>c \<in> set (drop 1 (split CHR '','' l)). v = lower (strip c)))
         \<and> total_tests (run_checks e exts m) =
             length [x \<leftarrow> exts. x \<noteq> e \<and> cell m e x \<noteq> None]
             + length [x \<leftarrow> exts. x \<noteq> e \<and> cell m x e \<noteq> None]
         \<and> failures (run_checks e exts m) =
             length [x \<leftarrow> exts. x \<noteq> e \<and> cell m e x = Some ''no'']
             + length [x \<leftarrow> exts. x \<noteq> e \<and> cell m x e = Some ''no'']
         \<and> set (snd (calculate_failure_rate_and_failed_extensions e exts m)) =
             {x \<in> set exts. x \<noteq> e \<and> (cell m e x = Some ''no'' \<or> cell m x e = Some ''no'')}
         \<and> (distinct exts \<and> distinct (map row_name lines) \<and> i < length lines
              \<and> split CHR '','' (lines ! i) = c0 # cells \<and> j < length cells \<longrightarrow>
              cell m (strip c0) (exts ! j) = Some (lower (strip (cells ! j)))
              \<and> (exts ! j \<noteq> strip c0 \<longrightarrow>
                   (exts ! j \<in> set (snd (calculate_failure_rate_and_failed_extensions
                                             (strip c0) exts m))
                      \<longleftrightarrow> lower (strip (cells ! j)) = ''no''
                            \<or> cell m (exts ! j) (strip c0) = Some ''no'')
                   \<and> (strip c0 \<in> set exts \<longrightarrow>
                        (strip c0 \<in> set (snd (calculate_failure_rate_and_failed_extensions
                                                 (exts ! j) exts m))
                           \<longleftrightarrow> lower (strip (cells ! j)) = ''no''
                                 \<or> cell m (exts ! j) (strip c0) = Some ''no''))))"
proof -
  from parse_csv_Inr [OF assms] have pl: "parse_lines exts lines Map.empty = Inr m"
    by (rule conjunct2)
  have src: "\<forall>a b v. cell m a b = Some v \<longrightarrow>
            (\<exists>l \<in> set lines. \<exists>c \<in> set (drop 1 (split CHR '','' l)). v = lower (strip c))"
  proof (intro allI impI)
    fix a b v assume "cell m a b = Some v"
    from parse_lines_source [OF pl this]
    show "\<exists>l \<in> set lines. \<exists>c \<in> set (drop 1 (split CHR '','' l)). v = lower (strip c)"
      by (simp add: cell_def)
  qed
  have mem: "\<And>e. set (snd (calculate_failure_rate_and_failed_extensions e exts m)) =
             {x \<in> set exts. x \<noteq> e \<and> (cell m e x = Some ''no'' \<or> cell m x e = Some ''no'')}"
    by (simp add: calculate_failed finite_run_checks_failed run_checks_failed)
  have tab: "distinct exts \<and> distinct (map row_name lines) \<and> i < length lines
              \<and> split CHR '','' (lines ! i) = c0 # cells \<and> j < length cells \<longrightarrow>
              cell m (strip c0) (exts ! j) = Some (lower (strip (cells ! j)))
              \<and> (exts ! j \<noteq> strip c0 \<longrightarrow>
                   (exts ! j \<in> set (snd (calculate_failure_rate_and_failed_extensions
                                             (strip c0) exts m))
                      \<longleftrightarrow> lower (strip (cells ! j)) = ''no''
                            \<or> cell m (exts ! j) (strip c0) = Some ''no'')
                   \<and> (strip c0 \<in> set exts \<longrightarrow>
                        (strip c0 \<in> set (snd (calculate_failure_rate_and_failed_extensions
                                                 (exts ! j) exts m))
                           \<longleftrightarrow> lower (strip (cells ! j)) = ''no''
                                 \<or> cell m (exts ! j) (strip c0) = Some ''no'')))"
  proof
    assume h: "distinct exts \<and> distinct (map row_name lines) \<and> i < length lines
              \<and> split CHR '','' (lines ! i) = c0 # cells \<and> j < length cells"
    then have c: "cell m (strip c0) (exts ! j) = Some (lower (strip (cells ! j)))"
      using parse_lines_cell [OF pl, of i c0 cells j] by simp
    from h have "parse_lines exts lines Map.empty = Inr m \<and> i < length lines" using pl by simp
    have "\<exists>row0 r. parse_cells exts 0 cells row0 = Inr r"
      using parse_lines_row [OF pl, of i c0 cells] h by blast
    then have "cells = [] \<or> 0 + length cells \<le> length exts"
      using parse_cells_ok_iff [of exts 0 cells] by blast
    with h have "j < length exts" by auto
    then have x: "exts ! j \<in> set exts" by simp
    show "cell m (strip c0) (exts ! j) = Some (lower (strip (cells ! j)))
              \<and> (exts ! j \<noteq> strip c0 \<longrightarrow>
                   (exts ! j \<in> set (snd (calculate_failure_rate_and_failed_extensions
                                             (strip c0) exts m))
                      \<longleftrightarrow> lower (strip (cells ! j)) = ''no''
                            \<or> cell m (exts ! j) (strip c0) = Some ''no'')
                   \<and> (strip c0 \<in> set exts \<longrightarrow>
                        (strip c0 \<in> set (snd (calculate_failure_rate_and_failed_extensions
                                                 (exts ! j) exts m))
                           \<longleftrightarrow> lower (strip (cells ! j)) = ''no''
                                 \<or> cell m (exts ! j) (strip c0) = Some ''no'')))"
      using c x by (auto simp add: mem)
  qed
  show ?thesis
    using src run_checks_total [of e exts m] run_checks_failures [of e exts m] mem [of e] tab
    by blast
qed

theorem failure_iff_normalised_no_witness:
  "\<exists>m. parse_csv table_no = Inr ([''A'', ''B''], m)
       \<and> cell m ''A'' ''B'' = Some ''no''
       \<and> cell m ''B'' ''A'' = Some ''yes''
       \<and> total_tests (run_checks ''A'' [''A'', ''B''] m) = 2
       \<and> failures (run_checks ''A'' [''A'', ''B''] m) = 1
       \<and> calculate_failure_rate_and_failed_extensions ''A'' [''A'', ''B''] m = (50, [''B''])
       \<and> calculate_failure_rate_and_failed_extensions ''B'' [''A'', ''B''] m = (50, [''A''])"
proof -
  have l: "split CHR 0x0A (strip table_no) = '',A,B'' # [''A,-, NO '', ''B,Yes,-'']"
    by (simp add: table_no_def strip_def isspace_def)
  have fit: "\<forall>l \<in> set [''A,-, NO '', ''B,Yes,-''].
               length (split CHR '','' l) - 1 \<le> length (map strip (drop 1 (split CHR '','' '',A,B'')))"
    by simp
  have hd: "map strip (drop 1 (split CHR '','' '',A,B'')) = [''A'', ''B'']"
    by (simp add: strip_def isspace_def)
  from parse_csv_ok [OF l fit] obtain m where p: "parse_csv table_no = Inr ([''A'', ''B''], m)"
    unfolding hd ..
  have d: "distinct [''A'', ''B''] \<and> distinct (map row_name [''A,-, NO '', ''B,Yes,-''])"
    by (simp add: row_name_def strip_def isspace_def)
  have s0: "split CHR '','' ([''A,-, NO '', ''B,Yes,-''] ! 0) = ''A'' # [''-'', '' NO '']"
    by simp
  have s1: "split CHR '','' ([''A,-, NO '', ''B,Yes,-''] ! 1) = ''B'' # [''Yes'', ''-'']"
    by simp
  note tab = failure_iff_normalised_no [OF p l, of "''A''" 0 "''A''" "[''-'', '' NO '']" 1]
  note tba = failure_iff_normalised_no [OF p l, of "''B''" 1 "''B''" "[''Yes'', ''-'']" 0]
  have n1: "lower (strip '' NO '') = ''no''" by code_simp
  have n2: "lower (strip ''Yes'') = ''yes''" by code_simp
  have n3: "strip ''A'' = ''A''" "strip ''B'' = ''B''" by code_simp+
  have cab: "cell m ''A'' ''B'' = Some ''no''"
    using tab d s0 by (simp add: n1 n3)
  have cba: "cell m ''B'' ''A'' = Some ''yes''"
    using tba d s1 by (simp add: n2 n3)
  have ta: "total_tests (run_checks ''A'' [''A'', ''B''] m) = 2"
    using tab cab cba by simp
  have fa: "failures (run_checks ''A'' [''A'', ''B''] m) = 1"
    using tab cab cba by simp
  have tb: "total_tests (run_checks ''B'' [''A'', ''B''] m) = 2"
    using tba cab cba by simp
  have fb: "failures (run_checks ''B'' [''A'', ''B''] m) = 1"
    using tba cab cba by simp
  have r: "double (double (1 / of_nat 2) * 100) = 50"
    by code_simp
  have sa: "failed_extensions (run_checks ''A'' [''A'', ''B''] m) = {''B''}"
    using cab cba by (auto simp add: run_checks_failed)
  have sb: "failed_extensions (run_checks ''B'' [''A'', ''B''] m) = {''A''}"
    using cab cba by (auto simp add: run_checks_failed)
  have ca: "calculate_failure_rate_and_failed_extensions ''A'' [''A'', ''B''] m = (50, [''B''])"
    by (rule prod_eqI) (simp_all add: calculate_rate calculate_failed ta fa sa r del: of_nat_numeral)
  have cb: "calculate_failure_rate_and_failed_extensions ''B'' [''A'', ''B''] m = (50, [''A''])"
    by (rule prod_eqI) (simp_all add: calculate_rate calculate_failed tb fb sb r del: of_nat_numeral)
  from p cab cba ta fa ca cb show ?thesis by blast
qed

section \<open>What the steps of the site writer change\<close>

lemma print_fs [simp]: "fs (print l w) = fs w"
  and print_calls [simp]: "aggregator_calls (print l w) = aggregator_calls w"
  by (simp_all add: print_def)

lemma fold_print_fs [simp]: "fs (fold print ls w) = fs w"
  by (induction ls arbitrary: w) simp_all

lemma fold_print_calls [simp]: "aggregator_calls (fold print ls w) = aggregator_calls w"
  by (induction ls arbitrary: w) simp_all

lemma write_file_calls [simp]: "aggregator_calls (write_file p t w) = aggregator_calls w"
  by (simp add: write_file_def)

lemma mkdir_calls [simp]: "aggregator_calls (mkdir p w) = aggregator_calls w"
  by (simp add: mkdir_def)

lemma copytree_calls [simp]: "aggregator_calls (copytree s d w) = aggregator_calls w"
  by (simp add: copytree_def)

lemma copy_assets_calls [simp]: "aggregator_calls (copy_assets b w) = aggregator_calls w"
  by (simp add: copy_assets_def Let_def)

lemma open_read_cong: "fs w = fs w' \<Longrightarrow> open_read w p = open_read w' p"
  by (simp add: open_read_def)

lemma read_table_cases:
  "(\<exists>l. read_table rd p what init loop w = (init, print l w))
   \<or> (\<exists>body. open_read w p = Inr body
        \<and> ((\<exists>d. loop (rd body) init = (d, None) \<and> read_table rd p what init loop w = (d, w))
           \<or> (\<exists>d e. loop (rd body) init = (d, Some e)
                 \<and> read_table rd p what init loop w = (d, print (PrintError p e) w))))"
proof (cases "open_read w p")
  case (Inl e)
  then show ?thesis by (cases e) (auto simp add: read_table_def)
next
  case (Inr body)
  obtain d r where l: "loop (rd body) init = (d, r)" by (metis prod.exhaust)
  with Inr show ?thesis by (cases r) (auto simp add: read_table_def)
qed

lemma read_table_fs [simp]: "fs (snd (read_table rd p what init loop w)) = fs w"
  using read_table_cases [of rd p what init loop w] by auto

lemma read_table_calls [simp]:
  "aggregator_calls (snd (read_table rd p what init loop w)) = aggregator_calls w"
  using read_table_cases [of rd p what init loop w] by auto

lemma read_table_fst_cong:
  assumes "fs w = fs w'"
  shows "fst (read_table rd p what init loop w) = fst (read_table rd p what init loop w')"
proof (cases "open_read w p")
  case (Inl e)
  moreover from Inl have "open_read w' p = Inl e"
    using open_read_cong [OF assms, of p] by simp
  ultimately show ?thesis by (cases e) (simp_all add: read_table_def)
next
  case (Inr body)
  moreover from Inr have "open_read w' p = Inr body"
    using open_read_cong [OF assms, of p] by simp
  moreover obtain d r where "loop (rd body) init = (d, r)" by (metis prod.exhaust)
  ultimately show ?thesis by (cases r) (simp_all add: read_table_def)
qed

lemma probe_cases:
  "(\<exists>d'. probe e f dir (d, w) = (d', w)) \<or> (\<exists>l. probe e f dir (d, w) = (d, print l w))"
proof -
  define tp where "tp = os_path_join ''total_compat_output'' [dir, ''terminal.txt'']"
  show ?thesis
  proof (cases "exists w tp")
    case False
    then show ?thesis by (simp add: probe_def tp_def [symmetric] del: os_path_join.simps)
  next
    case True
    show ?thesis
    proof (cases "open_read w tp")
      case (Inl err)
      with True show ?thesis
        by (auto simp add: probe_def tp_def [symmetric] simp del: os_path_join.simps)
    next
      case (Inr body)
      with True show ?thesis
        by (auto simp add: probe_def tp_def [symmetric] simp del: os_path_join.simps)
    qed
  qed
qed

lemma probe_fs [simp]: "fs (snd (probe e f dir st)) = fs (snd st)"
  using probe_cases [of e f dir "fst st" "snd st"] by auto

lemma probe_calls [simp]: "aggregator_calls (snd (probe e f dir st)) = aggregator_calls (snd st)"
  using probe_cases [of e f dir "fst st" "snd st"] by auto

lemma probe_both_fs [simp]: "fs (snd (probe_both e f st)) = fs (snd st)"
  and probe_both_calls [simp]:
    "aggregator_calls (snd (probe_both e f st)) = aggregator_calls (snd st)"
  by (simp_all add: probe_both_def)

lemma fold_probe_both_fs [simp]: "fs (snd (fold (probe_both e) fl st)) = fs (snd st)"
  by (induction fl arbitrary: st) simp_all

lemma fold_probe_both_calls [simp]:
  "aggregator_calls (snd (fold (probe_both e) fl st)) = aggregator_calls (snd st)"
  by (induction fl arbitrary: st) simp_all

lemma get_terminal_outputs_fs [simp]: "fs (snd (get_terminal_outputs e fl w)) = fs w"
proof (cases "fold (probe_both e) fl ([], w)")
  case (Pair d w')
  have "fs (snd (fold (probe_both e) fl ([], w))) = fs w" by simp
  with Pair have "fs w' = fs w" by simp
  with Pair show ?thesis by (simp add: get_terminal_outputs_def)
qed

lemma get_terminal_outputs_calls [simp]:
  "aggregator_calls (snd (get_terminal_outputs e fl w)) = aggregator_calls w"
proof (cases "fold (probe_both e) fl ([], w)")
  case (Pair d w')
  have "aggregator_calls (snd (fold (probe_both e) fl ([], w))) = aggregator_calls w" by simp
  with Pair have "aggregator_calls w' = aggregator_calls w" by simp
  with Pair show ?thesis by (simp add: get_terminal_outputs_def)
qed

lemma compatibility_fs [simp]: "fs (snd (compatibility e exts m w)) = fs w"
  by (simp add: compatibility_def split: prod.splits)

lemma compatibility_calls:
  "aggregator_calls (snd (compatibility e exts m w)) =
     aggregator_calls w @ (if e \<in> set exts then [e] else [])"
  by (simp add: compatibility_def split: prod.splits)

lemma compatibility_absent:
  "e \<notin> set exts \<Longrightarrow> compatibility e exts m w = ((0, [], False), w)"
  by (simp add: compatibility_def)

lemma extension_page_fs [simp]:
  "fs (snd (extension_page srcs descs infos mechs incl exts m e w)) = fs w"
proof -
  obtain rate failed has w1 where c: "compatibility e exts m w = ((rate, failed, has), w1)"
    by (metis prod.exhaust)
  then have "fs w1 = fs w" by (metis compatibility_fs snd_conv)
  moreover obtain outs w2 where
    g: "(if has then get_terminal_outputs e failed w1 else ([], w1)) = (outs, w2)"
    by (metis prod.exhaust)
  then have "fs w2 = fs w1"
    by (cases has) (metis get_terminal_outputs_fs snd_conv, simp)
  ultimately show ?thesis using c g by (simp add: extension_page_def)
qed

lemma extension_page_calls:
  "aggregator_calls (snd (extension_page srcs descs infos mechs incl exts m e w)) =
     aggregator_calls w @ (if e \<in> set exts then [e] else [])"
proof -
  obtain rate failed has w1 where c: "compatibility e exts m w = ((rate, failed, has), w1)"
    by (metis prod.exhaust)
  then have "aggregator_calls w1 = aggregator_calls w @ (if e \<in> set exts then [e] else [])"
    by (metis compatibility_calls snd_conv)
  moreover obtain outs w2 where
    g: "(if has then get_terminal_outputs e failed w1 else ([], w1)) = (outs, w2)"
    by (metis prod.exhaust)
  then have "aggregator_calls w2 = aggregator_calls w1"
    by (cases has) (metis get_terminal_outputs_calls snd_conv, simp)
  ultimately show ?thesis using c g by (simp add: extension_page_def)
qed

lemma extension_page_absent:
  "e \<notin> set exts \<Longrightarrow>
     extension_page srcs descs infos mechs incl exts m e w =
       (\<lparr>extension_name = e, failure_rate = 0, source_code = get_or srcs e '''',
         description = description_of descs incl e, page_failed_extensions = [],
         terminal_outputs = [], extensibility_types = get_or infos e [''None''],
         system_components = get_or mechs e [''None''], has_compatibility_data = False,
         include_descriptions = incl\<rparr>, w)"
  by (simp add: extension_page_def compatibility_absent)

lemma extension_data_loop_step:
  "extension_data_loop srcs descs incl exts m (e # rest) acc w =
     extension_data_loop srcs descs incl exts m rest
       (acc @ [\<lparr>entry_name = e, entry_source_code = get_or srcs e '''',
                entry_description = description_of descs incl e,
                entry_failed_extensions = fst (snd (fst (compatibility e exts m w))),
                entry_has_compatibility_data = snd (snd (fst (compatibility e exts m w))),
                entry_include_descriptions = incl\<rparr>])
       (snd (compatibility e exts m w))"
  by (simp split: prod.splits)

lemma extension_data_loop_calls:
  "aggregator_calls (snd (extension_data_loop srcs descs incl exts m all acc w)) =
     aggregator_calls w @ [e \<leftarrow> all. e \<in> set exts]"
proof (induction all arbitrary: acc w)
  case Nil
  show ?case by simp
next
  case (Cons e rest)
  show ?case
    by (simp only: extension_data_loop_step Cons.IH compatibility_calls) simp
qed

lemma extension_data_loop_fs [simp]:
  "fs (snd (extension_data_loop srcs descs incl exts m all acc w)) = fs w"
proof (induction all arbitrary: acc w)
  case Nil
  show ?case by simp
next
  case (Cons e rest)
  show ?case
    by (simp only: extension_data_loop_step Cons.IH compatibility_fs)
qed

lemma extension_data_loop_names:
  "map entry_name (fst (extension_data_loop srcs descs incl exts m all acc w)) =
     map entry_name acc @ all"
proof (induction all arbitrary: acc w)
  case Nil
  show ?case by simp
next
  case (Cons e rest)
  show ?case
    by (simp only: extension_data_loop_step Cons.IH) simp
qed

lemma extension_data_loop_absent:
  "en \<in> set (fst (extension_data_loop srcs descs incl exts m all acc w)) \<Longrightarrow>
     en \<in> set acc
     \<or> (entry_name en \<in> set all
        \<and> (entry_name en \<notin> set exts \<longrightarrow>
              entry_failed_extensions en = [] \<and> \<not> entry_has_compatibility_data en))"
proof (induction all arbitrary: acc w)
  case Nil
  then show ?case by simp
next
  case (Cons e rest)
  let ?new = "\<lparr>entry_name = e, entry_source_code = get_or srcs e '''',
                entry_description = description_of descs incl e,
                entry_failed_extensions = fst (snd (fst (compatibility e exts m w))),
                entry_has_compatibility_data = snd (snd (fst (compatibility e exts m w))),
                entry_include_descriptions = incl\<rparr>"
  from Cons.prems have
    "en \<in> set (fst (extension_data_loop srcs descs incl exts m rest (acc @ [?new])
                      (snd (compatibility e exts m w))))"
    by (simp only: extension_data_loop_step)
  from Cons.IH [OF this] consider "en \<in> set acc" | "en = ?new"
    | "entry_name en \<in> set rest
        \<and> (entry_name en \<notin> set exts \<longrightarrow>
              entry_failed_extensions en = [] \<and> \<not> entry_has_compatibility_data en)"
    by auto
  then show ?case
  proof cases
    case 1
    then show ?thesis by simp
  next
    case 2
    then show ?thesis by (simp add: compatibility_absent)
  next
    case 3
    then show ?thesis by simp
  qed
qed

lemma pages_loop_step:
  "pages_loop render t build srcs descs infos mechs incl exts m (e # rest) w =
     pages_loop render t build srcs descs infos mechs incl exts m rest
       (write_file (os_path_join build [e @ ''.html''])
          (render t (Extension (fst (extension_page srcs descs infos mechs incl exts m e w))))
          (snd (extension_page srcs descs infos mechs incl exts m e w)))"
  by (simp split: prod.splits del: os_path_join.simps)

lemma pages_loop_calls:
  "aggregator_calls (pages_loop render t build srcs descs infos mechs incl exts m all w) =
     aggregator_calls w @ [e \<leftarrow> all. e \<in> set exts]"
proof (induction all arbitrary: w)
  case Nil
  show ?case by simp
next
  case (Cons e rest)
  show ?case
    by (simp only: pages_loop_step Cons.IH write_file_calls extension_page_calls) simp
qed

lemma pages_loop_keeps_text:
  "fs w p = Some (Text x) \<Longrightarrow>
     \<exists>y. fs (pages_loop render t build srcs descs infos mechs incl exts m all w) p = Some (Text y)"
proof (induction all arbitrary: w x)
  case Nil
  then show ?case by simp
next
  case (Cons e rest)
  let ?w1 = "write_file (os_path_join build [e @ ''.html''])
          (render t (Extension (fst (extension_page srcs descs infos mechs incl exts m e w))))
          (snd (extension_page srcs descs infos mechs incl exts m e w))"
  have "\<exists>y. fs ?w1 p = Some (Text y)"
    using Cons.prems by (simp add: write_file_def del: os_path_join.simps)
  then obtain y where "fs ?w1 p = Some (Text y)" ..
  from Cons.IH [OF this] show ?case
    by (simp only: pages_loop_step)
qed

lemma pages_loop_written:
  "e \<in> set all \<Longrightarrow>
     \<exists>y. fs (pages_loop render t build srcs descs infos mechs incl exts m all w)
            (os_path_join build [e @ ''.html'']) = Some (Text y)"
proof (induction all arbitrary: w)
  case Nil
  then show ?case by simp
next
  case (Cons a rest)
  let ?w1 = "write_file (os_path_join build [a @ ''.html''])
          (render t (Extension (fst (extension_page srcs descs infos mechs incl exts m a w))))
          (snd (extension_page srcs descs infos mechs incl exts m a w))"
  show ?case
  proof (cases "e = a")
    case True
    have "fs ?w1 (os_path_join build [e @ ''.html''])
            = Some (Text (render t (Extension (fst (extension_page srcs descs infos mechs incl exts m a w)))))"
      using True by (simp add: write_file_def del: os_path_join.simps)
    from pages_loop_keeps_text [OF this] show ?thesis
      by (simp only: pages_loop_step)
  next
    case False
    with Cons.prems have "e \<in> set rest" by simp
    from Cons.IH [OF this] show ?thesis
      by (simp only: pages_loop_step)
  qed
qed

lemma write_site_Inr:
  assumes "write_site render build incl srcs descs infos mechs all exts m w = Inr w'"
  shows "aggregator_calls w' =
           aggregator_calls w @ [e \<leftarrow> all. e \<in> set exts] @ [e \<leftarrow> all. e \<in> set exts]"
    and "e \<in> set all \<Longrightarrow> \<exists>y. fs w' (os_path_join build [e @ ''.html'']) = Some (Text y)"
proof -
  obtain ed w1 where l: "extension_data_loop srcs descs incl exts m all [] w = (ed, w1)"
    by (metis prod.exhaust)
  have c1: "aggregator_calls w1 = aggregator_calls w @ [e \<leftarrow> all. e \<in> set exts]"
    by (metis l extension_data_loop_calls snd_conv)
  define w4 where "w4 = copy_assets build (mkdir (os_path_join build [''css'']) (mkdir build w1))"
  have c4: "aggregator_calls w4 = aggregator_calls w1" by (simp add: w4_def del: os_path_join.simps)
  from assms l obtain t1 where t1: "get_template w4 ''index.html'' = Inr t1"
    by (auto simp add: write_site_def Let_def w4_def simp del: os_path_join.simps split: sum.splits)
  define w5 where "w5 = write_file (os_path_join build [''index.html'']) (render t1 Home) w4"
  from assms l t1 obtain t2 where t2: "get_template w5 ''results.html'' = Inr t2"
    by (auto simp add: write_site_def Let_def w4_def w5_def simp del: os_path_join.simps split: sum.splits)
  define w6 where "w6 = write_file (os_path_join build [''results.html''])
                          (render t2 (Results ed incl)) w5"
  from assms l t1 t2 obtain t3 where t3: "get_template w6 ''extension.html'' = Inr t3"
    by (auto simp add: write_site_def Let_def w4_def w5_def w6_def simp del: os_path_join.simps split: sum.splits)
  from assms l t1 t2 t3 have w': "w' = fold print (summary_lines build all)
            (pages_loop render t3 build srcs descs infos mechs incl exts m all w6)"
    by (auto simp add: write_site_def Let_def w4_def w5_def w6_def simp del: os_path_join.simps)
  have c6: "aggregator_calls w6 = aggregator_calls w1"
    by (simp add: w6_def w5_def c4)
  show "aggregator_calls w' =
           aggregator_calls w @ [e \<leftarrow> all. e \<in> set exts] @ [e \<leftarrow> all. e \<in> set exts]"
    by (simp add: w' pages_loop_calls c6 c1)
  show "e \<in> set all \<Longrightarrow> \<exists>y. fs w' (os_path_join build [e @ ''.html'']) = Some (Text y)"
    using pages_loop_written [of e all render t3 build srcs descs infos mechs incl exts m w6]
    by (simp add: w' del: os_path_join.simps)
qed

lemma read_table_missing:
  "fs w p = None \<Longrightarrow>
     read_table rd p what init loop w =
       (init, print (Print (''Warning: '' @ p @ '' not found. '' @ what)) w)"
  by (simp add: read_table_def open_read_def)

lemma generate_website_eq:
  assumes "exists w ''layout''" and "open_read w csv = Inr body"
    and "parse_csv body = Inr (exts, m)"
  shows "\<exists>w4. fs w4 = fs w \<and> aggregator_calls w4 = aggregator_calls w
           \<and> generate_website rd render csv build incl w =
               write_site render build incl
                 (fst (parse_source_code_csv rd ''csvs/source_code.csv'' w))
                 (fst (parse_descriptions_csv rd ''csvs/descriptions.csv'' w))
                 (fst (fst (parse_infos_csv rd ''csvs/infos.csv'' w)))
                 (fst (parse_mechanisms_csv rd ''csvs/mechanisms.csv'' w))
                 (snd (fst (parse_infos_csv rd ''csvs/infos.csv'' w)))
                 exts m w4"
proof -
  obtain srcs w1 where r1: "parse_source_code_csv rd ''csvs/source_code.csv'' w = (srcs, w1)"
    by (metis prod.exhaust)
  obtain descs w2 where r2: "parse_descriptions_csv rd ''csvs/descriptions.csv'' w1 = (descs, w2)"
    by (metis prod.exhaust)
  obtain infos all w3 where r3: "parse_infos_csv rd ''csvs/infos.csv'' w2 = ((infos, all), w3)"
    by (metis prod.exhaust)
  obtain mechs w4 where r4: "parse_mechanisms_csv rd ''csvs/mechanisms.csv'' w3 = (mechs, w4)"
    by (metis prod.exhaust)
  have f1: "fs w1 = fs w" "aggregator_calls w1 = aggregator_calls w"
    using r1 read_table_fs read_table_calls
    unfolding parse_source_code_csv_def by (metis snd_conv)+
  have f2: "fs w2 = fs w1" "aggregator_calls w2 = aggregator_calls w1"
    using r2 read_table_fs read_table_calls
    unfolding parse_descriptions_csv_def by (metis snd_conv)+
  have f3: "fs w3 = fs w2" "aggregator_calls w3 = aggregator_calls w2"
    using r3 read_table_fs read_table_calls
    unfolding parse_infos_csv_def by (metis snd_conv)+
  have f4: "fs w4 = fs w3" "aggregator_calls w4 = aggregator_calls w3"
    using r4 read_table_fs read_table_calls
    unfolding parse_mechanisms_csv_def by (metis snd_conv)+
  have g1: "fs w = fs w1" using f1 by simp
  have g2: "fs w = fs w2" using f1 f2 by simp
  have g3: "fs w = fs w3" using f1 f2 f3 by simp
  have e2: "fst (parse_descriptions_csv rd ''csvs/descriptions.csv'' w) = descs"
    unfolding parse_descriptions_csv_def
    by (subst read_table_fst_cong [OF g1]) (metis r2 parse_descriptions_csv_def fst_conv)
  have e3: "fst (parse_infos_csv rd ''csvs/infos.csv'' w) = (infos, all)"
    unfolding parse_infos_csv_def
    by (subst read_table_fst_cong [OF g2]) (metis r3 parse_infos_csv_def fst_conv)
  have e4: "fst (parse_mechanisms_csv rd ''csvs/mechanisms.csv'' w) = mechs"
    unfolding parse_mechanisms_csv_def
    by (subst read_table_fst_cong [OF g3]) (metis r4 parse_mechanisms_csv_def fst_conv)
  have "generate_website rd render csv build incl w =
          write_site render build incl srcs descs infos mechs all exts m w4"
    using assms r1 r2 r3 r4 by (simp add: generate_website_def)
  moreover have "fs w4 = fs w" "aggregator_calls w4 = aggregator_calls w"
    using f1 f2 f3 f4 by simp_all
  ultimately show ?thesis using r1 e2 e3 e4 by auto
qed

section \<open>The example site\<close>

lemma example_infos:
  "fst (parse_infos_csv example_reader ''csvs/infos.csv'' example_world)
     = ([''A'' \<mapsto> [''None''], ''D'' \<mapsto> [''None'']], [''A'', ''D''])"
  by (simp add: parse_infos_csv_def read_table_def open_read_def example_world_def example_fs_def
      example_reader_def item_strip_def get_strip_def extensibility_columns_def strip_def
      isspace_def lower_def)

lemma example_csv:
  "open_read example_world ''csvs/compatibility.csv''
     = Inr ('',A,B'' @ [CHR 0x0A] @ ''A,-,no'' @ [CHR 0x0A] @ ''B,yes,-'')"
  by (simp add: open_read_def example_world_def example_fs_def)

lemma example_layout: "exists example_world ''layout''"
  by (simp add: exists_def example_world_def example_fs_def)

lemma example_parse:
  "\<exists>m. parse_csv ('',A,B'' @ [CHR 0x0A] @ ''A,-,no'' @ [CHR 0x0A] @ ''B,yes,-'') = Inr ([''A'', ''B''], m)"
proof -
  have l: "split CHR 0x0A (strip ('',A,B'' @ [CHR 0x0A] @ ''A,-,no'' @ [CHR 0x0A] @ ''B,yes,-''))
             = '',A,B'' # [''A,-,no'', ''B,yes,-'']"
    by (simp add: strip_def isspace_def)
  have fit: "\<forall>l \<in> set [''A,-,no'', ''B,yes,-''].
               length (split CHR '','' l) - 1 \<le> length (map strip (drop 1 (split CHR '','' '',A,B'')))"
    by simp
  have hd: "map strip (drop 1 (split CHR '','' '',A,B'')) = [''A'', ''B'']"
    by (simp add: strip_def isspace_def)
  from parse_csv_ok [OF l fit] show ?thesis unfolding hd .
qed

lemma mkdir_other: "p \<noteq> q \<Longrightarrow> fs (mkdir q w) p = fs w p"
  by (simp add: mkdir_def)

lemma write_file_other: "p \<noteq> q \<Longrightarrow> fs (write_file q c w) p = fs w p"
  by (simp add: write_file_def)

lemma copy_assets_none:
  "fs w ''layout/css'' = None \<Longrightarrow> fs w ''portraits'' = None \<Longrightarrow> fs (copy_assets b w) = fs w"
  by (simp add: copy_assets_def exists_def Let_def del: os_path_join.simps)

lemma write_site_build_ok:
  assumes c: "fs w ''layout/css'' = None" and po: "fs w ''portraits'' = None"
    and i: "fs w ''layout/index.html'' = Some (Text t1)"
    and r: "fs w ''layout/results.html'' = Some (Text t2)"
    and x: "fs w ''layout/extension.html'' = Some (Text t3)"
  shows "\<exists>w'. write_site render ''build'' incl srcs descs infos mechs all exts m w = Inr w'"
proof -
  obtain ed w1 where l: "extension_data_loop srcs descs incl exts m all [] w = (ed, w1)"
    by (metis prod.exhaust)
  have f1: "fs w1 = fs w"
    by (metis l extension_data_loop_fs snd_conv)
  have j: "os_path_join ''build'' [''css''] = ''build/css''"
    "os_path_join ''build'' [''index.html''] = ''build/index.html''"
    "os_path_join ''build'' [''results.html''] = ''build/results.html''"
    "os_path_join ''layout'' [''index.html''] = ''layout/index.html''"
    "os_path_join ''layout'' [''results.html''] = ''layout/results.html''"
    "os_path_join ''layout'' [''extension.html''] = ''layout/extension.html''"
    by (simp_all add: startswith_def)
  define w3 where "w3 = mkdir ''build/css'' (mkdir ''build'' w1)"
  have f3: "fs w3 ''layout/css'' = None" "fs w3 ''portraits'' = None"
    "fs w3 ''layout/index.html'' = Some (Text t1)"
    "fs w3 ''layout/results.html'' = Some (Text t2)"
    "fs w3 ''layout/extension.html'' = Some (Text t3)"
    by (simp_all add: w3_def mkdir_other f1 c po i r x)
  define w4 where "w4 = copy_assets ''build'' w3"
  have f4: "fs w4 = fs w3"
    unfolding w4_def by (rule copy_assets_none [OF f3(1,2)])
  have g1: "get_template w4 ''index.html'' = Inr t1"
    by (simp add: get_template_def j f4 f3 del: os_path_join.simps)
  define w5 where "w5 = write_file ''build/index.html'' (render t1 Home) w4"
  have g2: "get_template w5 ''results.html'' = Inr t2"
    by (simp add: get_template_def j w5_def write_file_other f4 f3 del: os_path_join.simps)
  define w6 where "w6 = write_file ''build/results.html'' (render t2 (Results ed incl)) w5"
  have g3: "get_template w6 ''extension.html'' = Inr t3"
    by (simp add: get_template_def j w6_def w5_def write_file_other f4 f3 del: os_path_join.simps)
  show ?thesis
    unfolding write_site_def l
    by (simp add: Let_def j w3_def [symmetric] w4_def [symmetric] g1 w5_def [symmetric] g2
        w6_def [symmetric] g3 del: os_path_join.simps)
qed

lemma example_run:
  "\<exists>w'. generate_website example_reader example_render ''csvs/compatibility.csv'' ''build'' False
          example_world = Inr w'"
proof -
  from example_parse obtain m where
    p: "parse_csv ('',A,B'' @ [CHR 0x0A] @ ''A,-,no'' @ [CHR 0x0A] @ ''B,yes,-'') = Inr ([''A'', ''B''], m)" ..
  from generate_website_eq [OF example_layout example_csv p,
      of example_reader example_render "''build''" False]
  obtain w4 where f: "fs w4 = example_fs"
    and g: "generate_website example_reader example_render ''csvs/compatibility.csv'' ''build'' False
          example_world = write_site example_render ''build'' False
                 (fst (parse_source_code_csv example_reader ''csvs/source_code.csv'' example_world))
                 (fst (parse_descriptions_csv example_reader ''csvs/descriptions.csv'' example_world))
                 (fst (fst (parse_infos_csv example_reader ''csvs/infos.csv'' example_world)))
                 (fst (parse_mechanisms_csv example_reader ''csvs/mechanisms.csv'' example_world))
                 (snd (fst (parse_infos_csv example_reader ''csvs/infos.csv'' example_world)))
                 [''A'', ''B''] m w4"
    by (auto simp add: example_world_def)
  have "fs w4 ''layout/css'' = None" "fs w4 ''portraits'' = None"
    "fs w4 ''layout/index.html'' = Some (Text ''home'')"
    "fs w4 ''layout/results.html'' = Some (Text ''results'')"
    "fs w4 ''layout/extension.html'' = Some (Text ''extension'')"
    by (simp_all add: f example_fs_def)
  from write_site_build_ok [OF this] show ?thesis unfolding g .
qed

section \<open>Properties of the site writer\<close>






section \<open>Properties of the evidence locator\<close>

lemmas locator_defs = get_terminal_outputs_def probe_both_def probe_def exists_def open_read_def
  dict_append_def dict_get_def startswith_def print_def

text \<open>
  The scenario of claim C4: for \<open>pgcrypto\<close> and the failed list \<open>plpgsql\<close>, with the
  one file of the pair \<open>pgcrypto_plpgsql\<close>, the locator returns one group, keyed
  \<open>plpgsql\<close>, with one entry that holds the text of the file.
\<close>

lemma evidence_scenario_pgcrypto:
  "get_terminal_outputs ''pgcrypto'' [''plpgsql'']
     \<lparr>fs = [''total_compat_output/pgcrypto_plpgsql/terminal.txt'' \<mapsto> Text body],
      stdout = [], aggregator_calls = []\<rparr>
   = ([(''plpgsql'',
        [\<lparr>pair = ''pgcrypto_plpgsql'', first_ext = ''pgcrypto'',
          second_ext = ''plpgsql'', content = body\<rparr>])],
      \<lparr>fs = [''total_compat_output/pgcrypto_plpgsql/terminal.txt'' \<mapsto> Text body],
       stdout = [], aggregator_calls = []\<rparr>)"
  by (simp add: locator_defs)

text \<open>
  Claim C4 says that the first and second names of an entry follow the direction of the
  identifier that matched. The locator decides the direction by testing whether the
  identifier starts with the extension and an underscore, and that test also holds for
  the reversed identifier when the name of the counterpart starts that way. For the
  extension \<open>hstore\<close> and its counterpart \<open>hstore_plperl\<close>, with the one file of the
  reversed identifier \<open>hstore_plperl_hstore\<close>, the entry is labelled first \<open>hstore\<close>,
  second \<open>hstore_plperl\<close>: the direction of the identifier that did not match.
\<close>

theorem evidence_direction_mislabelled:
  "get_terminal_outputs ''hstore'' [''hstore_plperl'']
     \<lparr>fs = [''total_compat_output/hstore_plperl_hstore/terminal.txt'' \<mapsto> Text ''ERROR''],
      stdout = [], aggregator_calls = []\<rparr>
   = ([(''hstore_plperl'',
        [\<lparr>pair = ''hstore_plperl_hstore'', first_ext = ''hstore'',
          second_ext = ''hstore_plperl'', content = ''ERROR''\<rparr>])],
      \<lparr>fs = [''total_compat_output/hstore_plperl_hstore/terminal.txt'' \<mapsto> Text ''ERROR''],
       stdout = [], aggregator_calls = []\<rparr>)"
  by (simp add: locator_defs)

section \<open>Two runs on the same inputs\<close>

lemma agreeD: "agree A w v \<Longrightarrow> A p \<Longrightarrow> fs w p = fs v p"
  by (simp add: agree_def)

lemma agree_weaken: "agree A w v \<Longrightarrow> (\<And>p. B p \<Longrightarrow> A p) \<Longrightarrow> agree B w v"
  by (simp add: agree_def)

lemma agree_fs: "agree A w v \<Longrightarrow> fs w' = fs w \<Longrightarrow> fs v' = fs v \<Longrightarrow> agree A w' v'"
  by (simp add: agree_def)

lemma agree_mkdir: "agree A w v \<Longrightarrow> agree A (mkdir q w) (mkdir q v)"
  by (auto simp add: agree_def mkdir_def exists_def)

lemma agree_write:
  "agree A w v \<Longrightarrow> agree (\<lambda>p. A p \<or> p = q) (write_file q c w) (write_file q c v)"
  by (simp add: agree_def write_file_def)

lemma under_iff:
  "startswith p (dst @ ''/'') \<longleftrightarrow> (\<exists>rel. startswith rel ''/'' \<and> p = dst @ rel)"
proof
  assume "startswith p (dst @ ''/'')"
  then have t: "take (Suc (length dst)) p = dst @ ''/''" by (simp add: startswith_def)
  have "p = take (Suc (length dst)) p @ drop (Suc (length dst)) p" by simp
  with t have "p = dst @ (''/'' @ drop (Suc (length dst)) p)" by simp
  moreover have "startswith (''/'' @ drop (Suc (length dst)) p) ''/''"
    by (simp add: startswith_def)
  ultimately show "\<exists>rel. startswith rel ''/'' \<and> p = dst @ rel" by blast
next
  assume "\<exists>rel. startswith rel ''/'' \<and> p = dst @ rel"
  then show "startswith p (dst @ ''/'')"
    by (auto simp add: startswith_def)
qed

lemma startswith_slash: "startswith rel ''/'' \<longleftrightarrow> (\<exists>r. rel = CHR ''/'' # r)"
  by (cases rel) (auto simp add: startswith_def)

lemma copytree_fs:
  "fs (copytree src dst w) p =
     (if p = dst then Some Directory
      else if startswith p (dst @ ''/'')
      then (case fs w (src @ drop (length dst) p) of None \<Rightarrow> fs w p | Some n \<Rightarrow> Some n)
      else fs w p)"
  by (simp add: copytree_def)

lemma copytree_under:
  "startswith rel ''/'' \<Longrightarrow>
     fs (copytree src dst w) (dst @ rel) =
       (case fs w (src @ rel) of None \<Rightarrow> fs w (dst @ rel) | Some n \<Rightarrow> Some n)"
proof -
  assume r: "startswith rel ''/''"
  then have "startswith (dst @ rel) (dst @ ''/'')" using under_iff by blast
  moreover from r have "dst @ rel \<noteq> dst" by (auto simp add: startswith_slash)
  ultimately show ?thesis by (simp add: copytree_fs)
qed

lemma agree_copytree:
  assumes a: "agree A w v" and s: "\<And>rel. startswith rel ''/'' \<Longrightarrow> A (src @ rel)"
  shows "agree (\<lambda>p. A p \<or> (\<exists>rel. startswith rel ''/'' \<and> p = dst @ rel \<and> fs w (src @ rel) \<noteq> None))
           (copytree src dst w) (copytree src dst v)"
  unfolding agree_def
proof (intro allI impI)
  fix p
  assume h: "A p \<or> (\<exists>rel. startswith rel ''/'' \<and> p = dst @ rel \<and> fs w (src @ rel) \<noteq> None)"
  show "fs (copytree src dst w) p = fs (copytree src dst v) p"
  proof (cases "p = dst")
    case True
    then show ?thesis by (simp add: copytree_fs)
  next
    case False
    show ?thesis
    proof (cases "startswith p (dst @ ''/'')")
      case True
      then obtain rel where r: "startswith rel ''/''" and p: "p = dst @ rel"
        using under_iff by blast
      have e: "fs w (src @ rel) = fs v (src @ rel)"
        using a s [OF r] by (simp add: agree_def)
      show ?thesis
      proof (cases "fs w (src @ rel)")
        case None
        with h p r have "A p" by auto
        with a have "fs w p = fs v p" by (simp add: agree_def)
        moreover from None e have "fs v (src @ rel) = None" by simp
        ultimately show ?thesis using None p r by (simp add: copytree_under)
      next
        case (Some n)
        moreover from Some e have "fs v (src @ rel) = Some n" by simp
        ultimately show ?thesis using p r by (simp add: copytree_under)
      qed
    next
      case nu: False
      with h have "A p" using under_iff by blast
      with a have "fs w p = fs v p" by (simp add: agree_def)
      with False nu show ?thesis by (simp add: copytree_fs)
    qed
  qed
qed

lemma mkdir_keeps: "fs w p \<noteq> None \<Longrightarrow> fs (mkdir q w) p \<noteq> None"
  by (auto simp add: mkdir_def exists_def)

lemma copytree_keeps: "fs w p \<noteq> None \<Longrightarrow> fs (copytree src dst w) p \<noteq> None"
  by (auto simp add: copytree_fs split: option.splits)

lemma copy_assets_agree:
  assumes a: "agree A w v"
    and c: "A ''layout/css''" and po: "A ''portraits''"
    and cs: "\<And>rel. startswith rel ''/'' \<Longrightarrow> A (''layout/css'' @ rel)"
    and ps: "\<And>rel. startswith rel ''/'' \<Longrightarrow> A (''portraits'' @ rel)"
  shows "agree (\<lambda>p. A p \<or> copied_asset w b p) (copy_assets b w) (copy_assets b v)"
proof -
  define dc where "dc = os_path_join b [''css'']"
  define dp where "dp = os_path_join b [''portraits'']"
  define A1 where "A1 = (\<lambda>p. A p \<or> (fs w ''layout/css'' \<noteq> None
      \<and> (\<exists>rel. startswith rel ''/'' \<and> p = dc @ rel \<and> fs w (''layout/css'' @ rel) \<noteq> None)))"
  define w1 where "w1 = (if exists w ''layout/css''
                then print (Print ''CSS files copied successfully'') (copytree ''layout/css'' dc w)
                else print (Print ''Warning: layout/css directory not found'') w)"
  define v1 where "v1 = (if exists v ''layout/css''
                then print (Print ''CSS files copied successfully'') (copytree ''layout/css'' dc v)
                else print (Print ''Warning: layout/css directory not found'') v)"
  have ex: "exists w ''layout/css'' = exists v ''layout/css''"
    using a c by (simp add: agree_def exists_def)
  have a1: "agree A1 w1 v1"
  proof (cases "exists w ''layout/css''")
    case True
    with ex have tv: "exists v ''layout/css''" by simp
    have "agree (\<lambda>p. A p \<or> (\<exists>rel. startswith rel ''/'' \<and> p = dc @ rel
                              \<and> fs w (''layout/css'' @ rel) \<noteq> None))
            (copytree ''layout/css'' dc w) (copytree ''layout/css'' dc v)"
      using a cs by (rule agree_copytree)
    then have "agree A1 (copytree ''layout/css'' dc w) (copytree ''layout/css'' dc v)"
      by (rule agree_weaken) (auto simp add: A1_def)
    then show ?thesis
      using True tv by (simp add: w1_def v1_def agree_def)
  next
    case False
    with ex have fv: "\<not> exists v ''layout/css''" by simp
    from False have "\<And>p. A1 p \<Longrightarrow> A p" by (auto simp add: A1_def exists_def)
    with a have "agree A1 w v" by (rule agree_weaken)
    then show ?thesis
      using False fv by (simp add: w1_def v1_def agree_def)
  qed
  have keep: "\<And>p. fs w p \<noteq> None \<Longrightarrow> fs w1 p \<noteq> None"
    using copytree_keeps [of w _ "''layout/css''" dc] by (cases "exists w ''layout/css''") (simp_all add: w1_def)
  have A1A: "\<And>p. A p \<Longrightarrow> A1 p" by (simp add: A1_def)
  define A2 where "A2 = (\<lambda>p. A1 p \<or> (fs w1 ''portraits'' \<noteq> None
      \<and> (\<exists>rel. startswith rel ''/'' \<and> p = dp @ rel \<and> fs w1 (''portraits'' @ rel) \<noteq> None)))"
  define w2 where "w2 = (if exists w1 ''portraits''
         then print (Print ''Portraits directory copied successfully'') (copytree ''portraits'' dp w1)
         else print (Print ''Warning: portraits directory not found'') w1)"
  define v2 where "v2 = (if exists v1 ''portraits''
         then print (Print ''Portraits directory copied successfully'') (copytree ''portraits'' dp v1)
         else print (Print ''Warning: portraits directory not found'') v1)"
  have ex1: "exists w1 ''portraits'' = exists v1 ''portraits''"
    using a1 A1A [OF po] by (simp add: agree_def exists_def)
  have a2: "agree A2 w2 v2"
  proof (cases "exists w1 ''portraits''")
    case True
    with ex1 have tv: "exists v1 ''portraits''" by simp
    have "agree (\<lambda>p. A1 p \<or> (\<exists>rel. startswith rel ''/'' \<and> p = dp @ rel
                              \<and> fs w1 (''portraits'' @ rel) \<noteq> None))
            (copytree ''portraits'' dp w1) (copytree ''portraits'' dp v1)"
      using a1 A1A [OF ps] by (rule agree_copytree)
    then have "agree A2 (copytree ''portraits'' dp w1) (copytree ''portraits'' dp v1)"
      by (rule agree_weaken) (auto simp add: A2_def)
    then show ?thesis
      using True tv by (simp add: w2_def v2_def agree_def)
  next
    case False
    with ex1 have fv: "\<not> exists v1 ''portraits''" by simp
    from False have "\<And>p. A2 p \<Longrightarrow> A1 p" by (auto simp add: A2_def exists_def)
    with a1 have "agree A2 w1 v1" by (rule agree_weaken)
    then show ?thesis
      using False fv by (simp add: w2_def v2_def agree_def)
  qed
  have "\<And>p. A p \<or> copied_asset w b p \<Longrightarrow> A2 p"
    using keep by (auto simp add: A2_def A1_def copied_asset_def dc_def dp_def
        simp del: os_path_join.simps)
  with a2 have "agree (\<lambda>p. A p \<or> copied_asset w b p) w2 v2" by (rule agree_weaken)
  moreover have "copy_assets b w = w2"
    by (simp add: copy_assets_def Let_def w2_def w1_def dc_def dp_def del: os_path_join.simps)
  moreover have "copy_assets b v = v2"
    by (simp add: copy_assets_def Let_def v2_def v1_def dc_def dp_def del: os_path_join.simps)
  ultimately show ?thesis by simp
qed

lemma probe_agree:
  assumes "fs w (evidence_path dir) = fs v (evidence_path dir)"
  shows "fst (probe e f dir (d, w)) = fst (probe e f dir (d, v))"
proof -
  define tp where "tp = os_path_join ''total_compat_output'' [dir, ''terminal.txt'']"
  from assms have e: "fs w tp = fs v tp" by (simp add: tp_def evidence_path_def)
  then have x: "exists w tp = exists v tp" and o: "open_read w tp = open_read v tp"
    by (simp_all add: exists_def open_read_def)
  show ?thesis
  proof (cases "exists v tp")
    case False
    with x show ?thesis by (simp add: probe_def tp_def [symmetric] del: os_path_join.simps)
  next
    case True
    with x have tw: "exists w tp" by simp
    show ?thesis
    proof (cases "open_read v tp")
      case (Inl err)
      with o have "open_read w tp = Inl err" by simp
      with Inl True tw show ?thesis
        by (simp add: probe_def tp_def [symmetric] del: os_path_join.simps)
    next
      case (Inr body)
      with o have "open_read w tp = Inr body" by simp
      with Inr True tw show ?thesis
        by (simp add: probe_def tp_def [symmetric] del: os_path_join.simps)
    qed
  qed
qed

lemma probe_both_agree:
  assumes "\<And>dir. fs w (evidence_path dir) = fs v (evidence_path dir)"
  shows "fst (probe_both e f (d, w)) = fst (probe_both e f (d, v))"
proof -
  obtain d1 w1 where p1: "probe e f (e @ ''_'' @ f) (d, w) = (d1, w1)" by (metis prod.exhaust)
  obtain d1' v1 where p1': "probe e f (e @ ''_'' @ f) (d, v) = (d1', v1)" by (metis prod.exhaust)
  have "d1 = d1'" using probe_agree [OF assms, of e f "e @ ''_'' @ f" d] p1 p1' by simp
  moreover have "fs w1 = fs w" by (metis p1 probe_fs snd_conv)
  moreover have "fs v1 = fs v" by (metis p1' probe_fs snd_conv)
  ultimately have "fst (probe e f (f @ ''_'' @ e) (d1, w1)) = fst (probe e f (f @ ''_'' @ e) (d1', v1))"
    using probe_agree [of w1 "f @ ''_'' @ e" v1 e f d1] assms by simp
  with p1 p1' show ?thesis by (simp add: probe_both_def)
qed

lemma fold_probe_both_agree:
  assumes "\<And>dir. fs w (evidence_path dir) = fs v (evidence_path dir)"
  shows "fst (fold (probe_both e) fl (d, w)) = fst (fold (probe_both e) fl (d, v))"
  using assms
proof (induction fl arbitrary: d w v)
  case Nil
  show ?case by simp
next
  case (Cons f fl)
  obtain d1 w1 where p: "probe_both e f (d, w) = (d1, w1)" by (metis prod.exhaust)
  obtain d1' v1 where p': "probe_both e f (d, v) = (d1', v1)" by (metis prod.exhaust)
  have "d1 = d1'" using probe_both_agree [of w v e f d] Cons.prems p p' by simp
  moreover have "fs w1 = fs w" by (metis p probe_both_fs snd_conv)
  moreover have "fs v1 = fs v" by (metis p' probe_both_fs snd_conv)
  ultimately have "fst (fold (probe_both e) fl (d1, w1)) = fst (fold (probe_both e) fl (d1', v1))"
    using Cons.IH [of w1 v1 d1] Cons.prems by simp
  with p p' show ?case by simp
qed

lemma get_terminal_outputs_agree:
  assumes "\<And>dir. fs w (evidence_path dir) = fs v (evidence_path dir)"
  shows "fst (get_terminal_outputs e fl w) = fst (get_terminal_outputs e fl v)"
proof -
  obtain d w1 where p: "fold (probe_both e) fl ([], w) = (d, w1)" by (metis prod.exhaust)
  obtain d' v1 where p': "fold (probe_both e) fl ([], v) = (d', v1)" by (metis prod.exhaust)
  have "d = d'" using fold_probe_both_agree [of w v e fl "[]"] assms p p' by simp
  with p p' show ?thesis by (simp add: get_terminal_outputs_def)
qed

lemma compatibility_fst: "fst (compatibility e exts m w) = fst (compatibility e exts m v)"
  by (simp add: compatibility_def split: prod.splits)

lemma extension_page_agree:
  assumes "\<And>dir. fs w (evidence_path dir) = fs v (evidence_path dir)"
  shows "fst (extension_page srcs descs infos mechs incl exts m e w) =
         fst (extension_page srcs descs infos mechs incl exts m e v)"
proof -
  obtain rate failed has w1 where c: "compatibility e exts m w = ((rate, failed, has), w1)"
    by (metis prod.exhaust)
  obtain r' f' h' v1 where c': "compatibility e exts m v = ((r', f', h'), v1)"
    by (metis prod.exhaust)
  from compatibility_fst [of e exts m w v] c c' have eq: "r' = rate" "f' = failed" "h' = has"
    by simp_all
  have "fs w1 = fs w" by (metis c compatibility_fs snd_conv)
  moreover have "fs v1 = fs v" by (metis c' compatibility_fs snd_conv)
  ultimately have "fst (get_terminal_outputs e failed w1) = fst (get_terminal_outputs e failed v1)"
    using get_terminal_outputs_agree [of w1 v1 e failed] assms by simp
  then show ?thesis
    using c c' eq by (cases has) (auto simp add: extension_page_def split: prod.splits)
qed

lemma extension_data_loop_fst:
  "fst (extension_data_loop srcs descs incl exts m all acc w) =
   fst (extension_data_loop srcs descs incl exts m all acc v)"
proof (induction all arbitrary: acc w v)
  case Nil
  show ?case by simp
next
  case (Cons e rest)
  show ?case
    unfolding extension_data_loop_step compatibility_fst [of e exts m w v]
    by (rule Cons.IH)
qed

lemma pages_loop_agree:
  assumes "agree A w v" and "\<And>dir. A (evidence_path dir)"
  shows "agree (\<lambda>p. A p \<or> (\<exists>e \<in> set all. p = os_path_join b [e @ ''.html'']))
           (pages_loop render t b srcs descs infos mechs incl exts m all w)
           (pages_loop render t b srcs descs infos mechs incl exts m all v)"
  using assms
proof (induction all arbitrary: A w v)
  case Nil
  then show ?case by (simp add: agree_def)
next
  case (Cons e rest)
  let ?q = "os_path_join b [e @ ''.html'']"
  let ?pw = "extension_page srcs descs infos mechs incl exts m e w"
  let ?pv = "extension_page srcs descs infos mechs incl exts m e v"
  have ev: "\<And>dir. fs w (evidence_path dir) = fs v (evidence_path dir)"
    using Cons.prems by (simp add: agree_def)
  have pg: "fst ?pw = fst ?pv" using ev by (rule extension_page_agree)
  have "agree A (snd ?pw) (snd ?pv)"
    using Cons.prems(1) by (rule agree_fs) simp_all
  then have "agree (\<lambda>p. A p \<or> p = ?q)
               (write_file ?q (render t (Extension (fst ?pw))) (snd ?pw))
               (write_file ?q (render t (Extension (fst ?pw))) (snd ?pv))"
    by (rule agree_write)
  from Cons.IH [OF this] Cons.prems(2)
  have "agree (\<lambda>p. (A p \<or> p = ?q) \<or> (\<exists>e \<in> set rest. p = os_path_join b [e @ ''.html'']))
          (pages_loop render t b srcs descs infos mechs incl exts m (e # rest) w)
          (pages_loop render t b srcs descs infos mechs incl exts m (e # rest) v)"
    unfolding pages_loop_step pg by simp
  then show ?case
    by (rule agree_weaken) auto
qed

lemma get_template_agree:
  "agree A w v \<Longrightarrow> A (os_path_join ''layout'' [name]) \<Longrightarrow> get_template w name = get_template v name"
  by (simp add: agree_def get_template_def del: os_path_join.simps)

lemma input_path_facts:
  "input_path csv ''layout''" "input_path csv csv"
  "input_path csv ''csvs/source_code.csv''" "input_path csv ''csvs/descriptions.csv''"
  "input_path csv ''csvs/infos.csv''" "input_path csv ''csvs/mechanisms.csv''"
  "input_path csv (os_path_join ''layout'' [''index.html''])"
  "input_path csv (os_path_join ''layout'' [''results.html''])"
  "input_path csv (os_path_join ''layout'' [''extension.html''])"
  "input_path csv ''layout/css''" "input_path csv ''portraits''"
  "startswith rel ''/'' \<Longrightarrow> input_path csv (''layout/css'' @ rel)"
  "startswith rel ''/'' \<Longrightarrow> input_path csv (''portraits'' @ rel)"
  "input_path csv (evidence_path dir)"
  unfolding input_path_def by (iprover intro: disjI1 disjI2 exI conjI refl)+

lemma write_site_agree:
  assumes a: "agree (input_path csv) w v"
  shows "(\<forall>e. write_site render b incl srcs descs infos mechs all exts m w = Inl e
              \<longleftrightarrow> write_site render b incl srcs descs infos mechs all exts m v = Inl e)
       \<and> (\<forall>w' v'. write_site render b incl srcs descs infos mechs all exts m w = Inr w'
                 \<and> write_site render b incl srcs descs infos mechs all exts m v = Inr v'
              \<longrightarrow> agree (\<lambda>p. html_output b all p \<or> copied_asset w b p) w' v')"
proof -
  let ?I = "input_path csv"
  obtain ed w1 where l: "extension_data_loop srcs descs incl exts m all [] w = (ed, w1)"
    by (metis prod.exhaust)
  obtain ed' v1 where l': "extension_data_loop srcs descs incl exts m all [] v = (ed', v1)"
    by (metis prod.exhaust)
  have ed: "ed' = ed"
    using extension_data_loop_fst [of srcs descs incl exts m all "[]" w v] l l' by simp
  have f1: "fs w1 = fs w" by (metis l extension_data_loop_fs snd_conv)
  have g1: "fs v1 = fs v" by (metis l' extension_data_loop_fs snd_conv)
  have a1: "agree ?I w1 v1" using a f1 g1 by (rule agree_fs)
  define w3 where "w3 = mkdir (os_path_join b [''css'']) (mkdir b w1)"
  define v3 where "v3 = mkdir (os_path_join b [''css'']) (mkdir b v1)"
  have a3: "agree ?I w3 v3"
    unfolding w3_def v3_def by (intro agree_mkdir a1)
  have keep: "\<And>p. fs w p \<noteq> None \<Longrightarrow> fs w3 p \<noteq> None"
    unfolding w3_def by (intro mkdir_keeps) (simp add: f1)
  define A4 where "A4 = (\<lambda>p. ?I p \<or> copied_asset w3 b p)"
  define w4 where "w4 = copy_assets b w3"
  define v4 where "v4 = copy_assets b v3"
  have a4: "agree A4 w4 v4"
    unfolding A4_def w4_def v4_def
    by (rule copy_assets_agree [OF a3]) (rule input_path_facts | assumption)+
  define qi where "qi = os_path_join b [''index.html'']"
  define qr where "qr = os_path_join b [''results.html'']"
  have ws: "write_site render b incl srcs descs infos mechs all exts m w =
     (case get_template w4 ''index.html'' of
        Inl e \<Rightarrow> Inl e
      | Inr t1 \<Rightarrow>
          (case get_template (write_file qi (render t1 Home) w4) ''results.html'' of
             Inl e \<Rightarrow> Inl e
           | Inr t2 \<Rightarrow>
               (case get_template (write_file qr (render t2 (Results ed incl))
                                     (write_file qi (render t1 Home) w4)) ''extension.html'' of
                  Inl e \<Rightarrow> Inl e
                | Inr t3 \<Rightarrow>
                    Inr (fold print (summary_lines b all)
                          (pages_loop render t3 b srcs descs infos mechs incl exts m all
                             (write_file qr (render t2 (Results ed incl))
                                (write_file qi (render t1 Home) w4)))))))"
    unfolding write_site_def l w4_def w3_def qi_def qr_def
    by (simp add: Let_def split: sum.splits del: os_path_join.simps)
  have vs: "write_site render b incl srcs descs infos mechs all exts m v =
     (case get_template v4 ''index.html'' of
        Inl e \<Rightarrow> Inl e
      | Inr t1 \<Rightarrow>
          (case get_template (write_file qi (render t1 Home) v4) ''results.html'' of
             Inl e \<Rightarrow> Inl e
           | Inr t2 \<Rightarrow>
               (case get_template (write_file qr (render t2 (Results ed incl))
                                     (write_file qi (render t1 Home) v4)) ''extension.html'' of
                  Inl e \<Rightarrow> Inl e
                | Inr t3 \<Rightarrow>
                    Inr (fold print (summary_lines b all)
                          (pages_loop render t3 b srcs descs infos mechs incl exts m all
                             (write_file qr (render t2 (Results ed incl))
                                (write_file qi (render t1 Home) v4)))))))"
    unfolding write_site_def l' ed v4_def v3_def qi_def qr_def
    by (simp add: Let_def split: sum.splits del: os_path_join.simps)
  have i4: "\<And>p. ?I p \<Longrightarrow> A4 p" by (simp add: A4_def)
  have t1: "get_template w4 ''index.html'' = get_template v4 ''index.html''"
    using a4 by (rule get_template_agree) (rule i4, rule input_path_facts)
  show ?thesis
  proof (cases "get_template v4 ''index.html''")
    case (Inl e)
    with t1 show ?thesis by (simp add: ws vs)
  next
    case i: (Inr t1')
    define w5 where "w5 = write_file qi (render t1' Home) w4"
    define v5 where "v5 = write_file qi (render t1' Home) v4"
    define A5 where "A5 = (\<lambda>p. A4 p \<or> p = qi)"
    have a5: "agree A5 w5 v5"
      unfolding A5_def w5_def v5_def using a4 by (rule agree_write)
    have i5: "\<And>p. ?I p \<Longrightarrow> A5 p" by (simp add: A5_def A4_def)
    have t2: "get_template w5 ''results.html'' = get_template v5 ''results.html''"
      using a5 by (rule get_template_agree) (rule i5, rule input_path_facts)
    show ?thesis
    proof (cases "get_template v5 ''results.html''")
      case (Inl e)
      with t1 t2 i show ?thesis by (simp add: ws vs w5_def v5_def)
    next
      case r: (Inr t2')
      define w6 where "w6 = write_file qr (render t2' (Results ed incl)) w5"
      define v6 where "v6 = write_file qr (render t2' (Results ed incl)) v5"
      define A6 where "A6 = (\<lambda>p. A5 p \<or> p = qr)"
      have a6: "agree A6 w6 v6"
        unfolding A6_def w6_def v6_def using a5 by (rule agree_write)
      have i6: "\<And>p. ?I p \<Longrightarrow> A6 p" by (simp add: A6_def A5_def A4_def)
      have t3: "get_template w6 ''extension.html'' = get_template v6 ''extension.html''"
        using a6 by (rule get_template_agree) (rule i6, rule input_path_facts)
      show ?thesis
      proof (cases "get_template v6 ''extension.html''")
        case (Inl e)
        with t1 t2 t3 i r show ?thesis by (simp add: ws vs w5_def v5_def w6_def v6_def)
      next
        case x: (Inr t3')
        have "agree (\<lambda>p. A6 p \<or> (\<exists>e \<in> set all. p = os_path_join b [e @ ''.html'']))
           (pages_loop render t3' b srcs descs infos mechs incl exts m all w6)
           (pages_loop render t3' b srcs descs infos mechs incl exts m all v6)"
          using a6 by (rule pages_loop_agree) (rule i6, rule input_path_facts)
        then have "agree (\<lambda>p. html_output b all p \<or> copied_asset w b p)
           (pages_loop render t3' b srcs descs infos mechs incl exts m all w6)
           (pages_loop render t3' b srcs descs infos mechs incl exts m all v6)"
        proof (rule agree_weaken)
          fix p
          assume "html_output b all p \<or> copied_asset w b p"
          moreover have "copied_asset w b p \<Longrightarrow> copied_asset w3 b p"
            using keep unfolding copied_asset_def by blast
          ultimately show "A6 p \<or> (\<exists>e \<in> set all. p = os_path_join b [e @ ''.html''])"
            unfolding A6_def A5_def A4_def html_output_def qi_def qr_def by blast
        qed
        then have "agree (\<lambda>p. html_output b all p \<or> copied_asset w b p)
           (fold print (summary_lines b all)
              (pages_loop render t3' b srcs descs infos mechs incl exts m all w6))
           (fold print (summary_lines b all)
              (pages_loop render t3' b srcs descs infos mechs incl exts m all v6))"
          by (rule agree_fs) simp_all
        with t1 t2 t3 i r x show ?thesis
          by (simp add: ws vs w5_def v5_def w6_def v6_def)
      qed
    qed
  qed
qed

lemma read_table_fst_agree:
  assumes "fs w p = fs v p"
  shows "fst (read_table rd p what init loop w) = fst (read_table rd p what init loop v)"
proof -
  from assms have o: "open_read w p = open_read v p" by (simp add: open_read_def)
  show ?thesis
  proof (cases "open_read v p")
    case (Inl e)
    moreover from Inl o have "open_read w p = Inl e" by simp
    ultimately show ?thesis by (cases e) (simp_all add: read_table_def)
  next
    case (Inr body)
    moreover from Inr o have "open_read w p = Inr body" by simp
    moreover obtain d r where "loop (rd body) init = (d, r)" by (metis prod.exhaust)
    ultimately show ?thesis by (cases r) (simp_all add: read_table_def)
  qed
qed

lemma generate_website_no_layout:
  "\<not> exists w ''layout'' \<Longrightarrow>
     generate_website rd render csv b incl w = Inr (fold print layout_missing_lines w)"
  by (simp add: generate_website_def)

lemma generate_website_no_csv:
  "exists w ''layout'' \<Longrightarrow> open_read w csv = Inl e \<Longrightarrow>
     generate_website rd render csv b incl w = Inl e"
  by (simp add: generate_website_def)

lemma generate_website_no_parse:
  "exists w ''layout'' \<Longrightarrow> open_read w csv = Inr body \<Longrightarrow> parse_csv body = Inl e \<Longrightarrow>
     generate_website rd render csv b incl w = Inl e"
  by (simp add: generate_website_def split: prod.splits)

lemma copied_asset_fs: "fs w = fs v \<Longrightarrow> copied_asset w b p = copied_asset v b p"
  by (simp add: copied_asset_def del: os_path_join.simps)

lemma join_one:
  "\<not> startswith x ''/'' \<Longrightarrow> os_path_join a [x] = a @ x \<or> os_path_join a [x] = a @ ''/'' @ x"
  by simp

lemma evidence_path_last: "evidence_path d \<noteq> [] \<and> last (evidence_path d) = CHR ''t''"
proof -
  define a where "a = (if startswith d ''/'' then d else ''total_compat_output/'' @ d)"
  have e: "evidence_path d = os_path_join a [''terminal.txt'']"
    by (auto simp add: evidence_path_def a_def startswith_def)
  have "\<not> startswith ''terminal.txt'' ''/''" by (simp add: startswith_def)
  from join_one [OF this, of a]
  have "evidence_path d = a @ ''terminal.txt'' \<or> evidence_path d = a @ ''/'' @ ''terminal.txt''"
    unfolding e .
  then show ?thesis by auto
qed

lemma stale_not_input: "\<not> input_path ''csvs/compatibility.csv'' ''build/index.html''"
proof -
  have "\<And>d. ''build/index.html'' \<noteq> evidence_path d"
  proof
    fix d assume "''build/index.html'' = evidence_path d"
    then have "last ''build/index.html'' = last (evidence_path d)" by simp
    with evidence_path_last [of d] show False by simp
  qed
  then show ?thesis
    by (simp add: input_path_def startswith_def)
qed

lemma site_run_ok:
  assumes "exists w ''layout''" and "open_read w csv = Inr body"
    and "parse_csv body = Inr (exts, m)"
    and "fs w ''layout/css'' = None" and "fs w ''portraits'' = None"
    and "fs w ''layout/index.html'' = Some (Text t1)"
    and "fs w ''layout/results.html'' = Some (Text t2)"
    and "fs w ''layout/extension.html'' = Some (Text t3)"
  shows "\<exists>w'. generate_website rd render csv ''build'' incl w = Inr w'"
proof -
  from generate_website_eq [OF assms(1,2,3), of rd render "''build''" incl]
  obtain w4 where f: "fs w4 = fs w"
    and g: "generate_website rd render csv ''build'' incl w =
              write_site render ''build'' incl
                 (fst (parse_source_code_csv rd ''csvs/source_code.csv'' w))
                 (fst (parse_descriptions_csv rd ''csvs/descriptions.csv'' w))
                 (fst (fst (parse_infos_csv rd ''csvs/infos.csv'' w)))
                 (fst (parse_mechanisms_csv rd ''csvs/mechanisms.csv'' w))
                 (snd (fst (parse_infos_csv rd ''csvs/infos.csv'' w)))
                 exts m w4"
    by blast
  have "fs w4 ''layout/css'' = None" "fs w4 ''portraits'' = None"
    "fs w4 ''layout/index.html'' = Some (Text t1)"
    "fs w4 ''layout/results.html'' = Some (Text t2)"
    "fs w4 ''layout/extension.html'' = Some (Text t3)"
    using assms(4-8) by (simp_all add: f)
  from write_site_build_ok [OF this] show ?thesis unfolding g .
qed



end
